theory Spec2Isabelle
  imports Main
begin

section \<open>Python text primitives\<close>

text \<open>
  The decompiler works on Python 2 \<open>unicode\<close> text (the module starts with
  \<open>from __future__ import unicode_literals\<close>). A character is modelled as an Isabelle
  \<open>char\<close>, read as a code point below 256; whitespace and line boundaries are the
  ones Python 2 gives to \<open>unicode.strip\<close> and \<open>unicode.splitlines\<close> in that range.
\<close>

datatype error = TypeError | IndexError | ValueError | StopIteration | RecursionLimit

definition is_digit :: "char \<Rightarrow> bool" where
  "is_digit c \<longleftrightarrow> c \<in> set ''0123456789''"

definition is_space :: "char \<Rightarrow> bool" where
  "is_space c \<longleftrightarrow> c \<in> {CHR 0x09, CHR 0x0A, CHR 0x0B, CHR 0x0C, CHR 0x0D,
                          CHR 0x1C, CHR 0x1D, CHR 0x1E, CHR 0x1F, CHR 0x20, CHR 0x85, CHR 0xA0}"

definition is_linebreak :: "char \<Rightarrow> bool" where
  "is_linebreak c \<longleftrightarrow> c \<in> {CHR 0x0A, CHR 0x0B, CHR 0x0C, CHR 0x0D,
                              CHR 0x1C, CHR 0x1D, CHR 0x1E, CHR 0x85}"

definition lstrip :: "string \<Rightarrow> string" where
  "lstrip s = dropWhile is_space s"

definition rstrip :: "string \<Rightarrow> string" where
  "rstrip s = rev (dropWhile is_space (rev s))"

definition strip :: "string \<Rightarrow> string" where
  "strip s = rstrip (lstrip s)"

definition startswith :: "string \<Rightarrow> string \<Rightarrow> bool" where
  "startswith s p \<longleftrightarrow> take (length p) s = p"

text \<open>\<open>expect p s\<close> consumes the literal \<open>p\<close> at the start of \<open>s\<close> and returns the rest.\<close>

fun expect :: "string \<Rightarrow> string \<Rightarrow> string option" where
  "expect [] s = Some s"
| "expect (p # ps) [] = None"
| "expect (p # ps) (c # cs) = (if p = c then expect ps cs else None)"

text \<open>\<open>s.split('\n', 1)\<close>: the text before the first newline, and the text after it when
  there is a newline.\<close>

definition split_nl1 :: "string \<Rightarrow> string \<times> string option" where
  "split_nl1 s =
     (if CHR 0x0A \<in> set s
      then (takeWhile (\<lambda>c. c \<noteq> CHR 0x0A) s, Some (tl (dropWhile (\<lambda>c. c \<noteq> CHR 0x0A) s)))
      else (s, None))"

text \<open>\<open>unicode.splitlines()\<close>: a line ends at a line boundary character, \<open>\r\n\<close> counts as
  one boundary, and no empty line is reported after a final boundary.\<close>

fun splitlines_acc :: "string \<Rightarrow> string \<Rightarrow> string list" where
  "splitlines_acc cur [] = (if cur = [] then [] else [cur])"
| "splitlines_acc cur (c # cs) =
     (if c = CHR 0x0D \<and> cs \<noteq> [] \<and> hd cs = CHR 0x0A then cur # splitlines_acc [] (tl cs)
      else if is_linebreak c then cur # splitlines_acc [] cs
      else splitlines_acc (cur @ [c]) cs)"

definition splitlines :: "string \<Rightarrow> string list" where
  "splitlines s = splitlines_acc [] s"

text \<open>\<open>sep.join(xs)\<close>.\<close>

fun join :: "string \<Rightarrow> string list \<Rightarrow> string" where
  "join sep [] = []"
| "join sep [x] = x"
| "join sep (x # y # ys) = x @ sep @ join sep (y # ys)"

section \<open>Header Codec: \<open>parse_header\<close>\<close>

text \<open>
  \<open>re.search(r' *_([0-9]+) = \(_([0-9]+|name), _?([0-9]+)\) *\n?', header)\<close>.
  At one start position the pattern has a single way to match: the character after each
  greedy run (\<open>_\<close> after the spaces, a space after the own id, a comma after the parent,
  \<open>)\<close> after the index) is outside the run, the two alternatives of the parent group
  start with different characters, and a skipped \<open>_?\<close> would have to be followed by a
  digit. So the backtracking matcher is the deterministic function \<open>header_groups\<close>; the
  optional tail \<open> *\n?\<close> always matches and binds no group.
\<close>

definition parent_alt :: "string \<Rightarrow> (string \<times> string) option" where
  "parent_alt s =
     (if takeWhile is_digit s \<noteq> [] then Some (takeWhile is_digit s, dropWhile is_digit s)
      else (case expect ''name'' s of Some r \<Rightarrow> Some (''name'', r) | None \<Rightarrow> None))"

definition opt_underscore :: "string \<Rightarrow> string" where
  "opt_underscore s = (case s of c # r \<Rightarrow> if c = CHR ''_'' then r else s | [] \<Rightarrow> [])"

definition header_groups :: "string \<Rightarrow> (string \<times> string \<times> string) option" where
  "header_groups s =
     (case expect ''_'' (dropWhile (\<lambda>c. c = CHR '' '') s) of None \<Rightarrow> None
      | Some s1 \<Rightarrow>
        if takeWhile is_digit s1 = [] then None else
        (case expect '' = (_'' (dropWhile is_digit s1) of None \<Rightarrow> None
         | Some s2 \<Rightarrow>
           (case parent_alt s2 of None \<Rightarrow> None
            | Some (par, s3) \<Rightarrow>
              (case expect '', '' s3 of None \<Rightarrow> None
               | Some s4 \<Rightarrow>
                 if takeWhile is_digit (opt_underscore s4) = [] then None else
                 (case expect '')'' (dropWhile is_digit (opt_underscore s4)) of None \<Rightarrow> None
                  | Some s5 \<Rightarrow>
                      Some (takeWhile is_digit s1, par, takeWhile is_digit (opt_underscore s4)))))))"

text \<open>\<open>re.search\<close> tries the start positions from left to right; \<open>parse_header\<close> returns
  the three groups of the first match, or \<open>None\<close>.\<close>

fun parse_header :: "string \<Rightarrow> (string \<times> string \<times> string) option" where
  "parse_header [] = header_groups []"
| "parse_header (c # cs) =
     (case header_groups (c # cs) of Some g \<Rightarrow> Some g | None \<Rightarrow> parse_header cs)"

text \<open>The header line the spec describes, built from its parts: \<open>u\<close> tells whether the index
  carries the optional underscore.\<close>

definition header_text :: "string \<Rightarrow> string \<Rightarrow> bool \<Rightarrow> string \<Rightarrow> string" where
  "header_text own par u idx =
     ''_'' @ own @ '' = (_'' @ par @ '', '' @ (if u then ''_'' else '''') @ idx @ '')''"

definition digits :: "string \<Rightarrow> bool" where
  "digits s \<longleftrightarrow> s \<noteq> [] \<and> (\<forall>c \<in> set s. is_digit c)"

text \<open>A line has the shape of a header when the header pattern occurs somewhere in it.\<close>

definition header_shaped :: "string \<Rightarrow> bool" where
  "header_shaped l \<longleftrightarrow>
     (\<exists>pre own par u idx post. digits own \<and> (digits par \<or> par = ''name'') \<and> digits idx \<and>
        l = pre @ header_text own par u idx @ post)"

section \<open>The writer and the decompiler's state\<close>

text \<open>
  \<open>SLDecompiler\<close> inherits \<open>indent()\<close> and \<open>write(s)\<close> from \<open>DecompilerBase\<close>, which is
  not part of this file. The model keeps the calls made on the writer, in order: an
  \<open>indent()\<close> call is recorded with the indentation level it was made at, a \<open>write(s)\<close>
  call with its text (\<open>write_text\<close>). The decompiler's own state is the indentation
  counter.
\<close>

datatype event = EvIndent int | EvWrite string

record pstate =
  indent_level :: int
  out :: "event list"

definition indent :: "pstate \<Rightarrow> pstate" where
  "indent st = st\<lparr>out := out st @ [EvIndent (indent_level st)]\<rparr>"

definition write_text :: "string \<Rightarrow> pstate \<Rightarrow> pstate" where
  "write_text s st = st\<lparr>out := out st @ [EvWrite s]\<rparr>"

definition shift :: "int \<Rightarrow> pstate \<Rightarrow> pstate" where
  "shift k st = st\<lparr>indent_level := indent_level st + k\<rparr>"

text \<open>The options of the decompiler, and \<open>simple_expression_guard\<close> and the
  \<open>WordConcatenator\<close>'s \<open>join\<close>, both imported from \<open>util\<close>, as parameters.\<close>

record env =
  force_multiline_kwargs :: bool
  comparable :: bool
  decompile_python :: bool
  decompile_screencode :: bool
  simple_expression_guard :: "string \<Rightarrow> string"
  word_join :: "string list list \<Rightarrow> string"

text \<open>A raised exception ends the call: the steps after it are not run.\<close>

definition bindE :: "error + 'a \<Rightarrow> ('a \<Rightarrow> error + 'b) \<Rightarrow> error + 'b" where
  "bindE m f = (case m of Inl e \<Rightarrow> Inl e | Inr x \<Rightarrow> f x)"

section \<open>Block Splitter: \<open>print_nodes\<close>\<close>

text \<open>
  \<open>re.split(r'( *_[0-9]+ = \(_%s, _?[0-9]+\) *\n?)' % parent_id, code)\<close>. The parent id
  comes from \<open>parse_header\<close>, so it is a digit string or \<open>name\<close> and stands for itself in
  the pattern. \<open>node_core P s\<close> matches the pattern up to its closing parenthesis at the
  start of \<open>s\<close> and returns the text after it; as for the header pattern there is one way
  to match. \<open>node_rest P s\<close> adds the greedy tail \<open> *\n?\<close>, which takes every space and then
  one newline when they are there, and \<open>node_match P s\<close> returns the matched text and the
  rest.
\<close>

definition opt_newline :: "string \<Rightarrow> string" where
  "opt_newline s = (case s of c # r \<Rightarrow> if c = CHR 0x0A then r else s | [] \<Rightarrow> [])"

definition node_core :: "string \<Rightarrow> string \<Rightarrow> string option" where
  "node_core P s =
     (case expect ''_'' (dropWhile (\<lambda>c. c = CHR '' '') s) of None \<Rightarrow> None
      | Some s1 \<Rightarrow>
        if takeWhile is_digit s1 = [] then None else
        (case expect ('' = (_'' @ P @ '', '') (dropWhile is_digit s1) of None \<Rightarrow> None
         | Some s4 \<Rightarrow>
           if takeWhile is_digit (opt_underscore s4) = [] then None else
           expect '')'' (dropWhile is_digit (opt_underscore s4))))"

definition node_rest :: "string \<Rightarrow> string \<Rightarrow> string option" where
  "node_rest P s =
     map_option (\<lambda>s5. opt_newline (dropWhile (\<lambda>c. c = CHR '' '') s5)) (node_core P s)"

definition node_match :: "string \<Rightarrow> string \<Rightarrow> (string \<times> string) option" where
  "node_match P s = map_option (\<lambda>r. (take (length s - length r) s, r)) (node_rest P s)"

lemma expect_length: "expect p s = Some r \<Longrightarrow> length r \<le> length s"
  by (induction p s rule: expect.induct) (auto split: if_splits)

lemma expect_length_less: "expect (x # p) s = Some r \<Longrightarrow> length r < length s"
  by (cases s) (auto split: if_splits dest: expect_length)

lemma opt_underscore_length: "length (opt_underscore s) \<le> length s"
  by (cases s) (auto simp: opt_underscore_def)

lemma opt_newline_length: "length (opt_newline s) \<le> length s"
  by (cases s) (auto simp: opt_newline_def)

lemma node_match_shorter:
  assumes "node_match P s = Some (m, r)"
  shows "length r < length s"
proof -
  from assms obtain s1 s4 s5 where
    a: "expect ''_'' (dropWhile (\<lambda>c. c = CHR '' '') s) = Some s1"
    and b: "expect ('' = (_'' @ P @ '', '') (dropWhile is_digit s1) = Some s4"
    and c: "expect '')'' (dropWhile is_digit (opt_underscore s4)) = Some s5"
    and r: "r = opt_newline (dropWhile (\<lambda>c. c = CHR '' '') s5)"
    unfolding node_match_def node_rest_def node_core_def
    by (auto split: option.splits if_splits)
  have "length r \<le> length s5"
    unfolding r using opt_newline_length length_dropWhile_le le_trans by blast
  also have "\<dots> \<le> length (opt_underscore s4)"
    using expect_length[OF c] length_dropWhile_le le_trans by blast
  also have "\<dots> \<le> length s4" by (rule opt_underscore_length)
  also have "\<dots> \<le> length s1"
    using expect_length[OF b] length_dropWhile_le le_trans by blast
  also have "\<dots> < length (dropWhile (\<lambda>c. c = CHR '' '') s)"
    using expect_length_less a by simp
  also have "\<dots> \<le> length s" by (rule length_dropWhile_le)
  finally show ?thesis .
qed

text \<open>
  \<open>re.split\<close> with one group: the scan looks for the leftmost match from the current
  position, and goes on after the match. The result is the text before the first match
  (\<open>split[0]\<close>) and, for each match, the matched text and the text up to the next match
  (\<open>split[i]\<close>, \<open>split[i+1]\<close> for odd \<open>i\<close>).
\<close>

function re_split :: "string \<Rightarrow> string \<Rightarrow> string \<times> (string \<times> string) list" where
  "re_split P [] = ([], [])"
| "re_split P (c # cs) =
     (case node_match P (c # cs) of
        Some (m, rest) \<Rightarrow> (case re_split P rest of (g, nodes) \<Rightarrow> ([], (m, g) # nodes))
      | None \<Rightarrow> (case re_split P cs of (g, nodes) \<Rightarrow> (c # g, nodes)))"
  by pat_completeness auto
termination
  by (relation "measure (\<lambda>(P, s). length s)") (auto dest: node_match_shorter)

text \<open>Lines 143 to 150 of \<open>print_nodes\<close>: the (header, code) pairs its loop visits. A text
  of one line has none; unpacking the \<open>None\<close> that \<open>parse_header\<close> returns for a first line
  without header raises \<open>TypeError\<close>.\<close>

definition child_nodes :: "string \<Rightarrow> error + (string \<times> string) list" where
  "child_nodes code =
     (case split_nl1 code of
        (header, None) \<Rightarrow> Inr []
      | (header, Some _) \<Rightarrow>
          (case parse_header header of
             None \<Rightarrow> Inl TypeError
           | Some (my_id, parent_id, index) \<Rightarrow> Inr (snd (re_split parent_id code))))"

fun print_node_list ::
  "(string \<Rightarrow> string \<Rightarrow> pstate \<Rightarrow> error + pstate) \<Rightarrow> (string \<times> string) list \<Rightarrow> pstate \<Rightarrow> error + pstate"
where
  "print_node_list pn [] st = Inr st"
| "print_node_list pn ((header, code) # nodes) st =
     bindE (pn header code st) (print_node_list pn nodes)"

text \<open>\<open>print_nodes\<close>, with \<open>print_node\<close> as the parameter \<open>pn\<close>.\<close>

definition print_nodes ::
  "(string \<Rightarrow> string \<Rightarrow> pstate \<Rightarrow> error + pstate) \<Rightarrow> string \<Rightarrow> int \<Rightarrow> pstate \<Rightarrow> error + pstate"
where
  "print_nodes pn code extra_indent st =
     (if CHR 0x0A \<notin> set code then Inr st
      else bindE (child_nodes code) (\<lambda>nodes.
           bindE (print_node_list pn nodes (shift extra_indent st)) (\<lambda>st'.
           Inr (shift (- extra_indent) st'))))"

section \<open>Argument Parser: \<open>parse_args\<close>\<close>

text \<open>
  \<open>re.match(r'.*?\((.*)\)', string)\<close>: \<open>.\<close> matches every character but the newline, so
  the match lies in the first line. The lazy \<open>.*?\<close> stops at the first \<open>(\<close> after which the
  line still holds a \<open>)\<close>, which is the first \<open>(\<close> of the line or none; the greedy group
  then runs to the last \<open>)\<close> of the line. Without match the string is kept as it is.
\<close>

definition isolate_args :: "string \<Rightarrow> string" where
  "isolate_args s =
     (let l = takeWhile (\<lambda>c. c \<noteq> CHR 0x0A) s in
      if CHR ''('' \<in> set l then
        (let seg = tl (dropWhile (\<lambda>c. c \<noteq> CHR ''('') l) in
         if CHR '')'' \<in> set seg then rev (tl (dropWhile (\<lambda>c. c \<noteq> CHR '')'') (rev seg))) else s)
      else s)"

definition is_quote :: "char \<Rightarrow> bool" where
  "is_quote c \<longleftrightarrow> c = CHR 0x27 \<or> c = CHR 0x22"

definition is_open :: "char \<Rightarrow> bool" where
  "is_open c \<longleftrightarrow> c = CHR ''['' \<or> c = CHR ''('' \<or> c = CHR ''{''"

definition is_close :: "char \<Rightarrow> bool" where
  "is_close c \<longleftrightarrow> c = CHR '']'' \<or> c = CHR '')'' \<or> c = CHR ''}''"

definition count_trailing_slashes :: "string \<Rightarrow> nat" where
  "count_trailing_slashes split = length (takeWhile (\<lambda>c. c = CHR 0x5C) (rev split))"

text \<open>The stack of the scan, its top first; \<open>None\<close> is the sentinel \<open>[None]\<close> it starts
  with. \<open>stack[-1]\<close> on an empty stack raises \<open>IndexError\<close>.\<close>

definition in_string :: "char option \<Rightarrow> bool" where
  "in_string t = (case t of Some q \<Rightarrow> is_quote q | None \<Rightarrow> False)"

definition stack_step :: "char option list \<Rightarrow> string \<Rightarrow> char \<Rightarrow> error + char option list" where
  "stack_step stack current_parse character =
     (case stack of
        [] \<Rightarrow> Inl IndexError
      | t # below \<Rightarrow>
          if is_quote character then
            (if \<not> in_string t then Inr (Some character # stack)
             else if Some character = t \<and> count_trailing_slashes current_parse mod 2 = 0
             then Inr below
             else Inr stack)
          else if \<not> in_string t then
            (if is_open character then Inr (Some character # stack)
             else if is_close character then Inr below
             else Inr stack)
          else Inr stack)"

fun scan_args :: "char option list \<Rightarrow> string \<Rightarrow> string list \<Rightarrow> string \<Rightarrow> error + string list" where
  "scan_args stack current_parse arguments [] = Inr (arguments @ [strip current_parse])"
| "scan_args stack current_parse arguments (character # rest) =
     (case stack_step stack current_parse character of
        Inl e \<Rightarrow> Inl e
      | Inr stack' \<Rightarrow>
          if length stack' = 1 \<and> character = CHR '',''
          then scan_args stack' [] (arguments @ [strip current_parse]) rest
          else scan_args stack' (current_parse @ [character]) arguments rest)"

text \<open>\<open>re.match('^[a-zA-Z0-9_]+ *=[^=]', argument)\<close>.\<close>

definition is_word_char :: "char \<Rightarrow> bool" where
  "is_word_char c \<longleftrightarrow>
     c \<in> set ''abcdefghijklmnopqrstuvwxyzABCDEFGHIJKLMNOPQRSTUVWXYZ0123456789_''"

definition is_keyword_arg :: "string \<Rightarrow> bool" where
  "is_keyword_arg argument \<longleftrightarrow>
     takeWhile is_word_char argument \<noteq> [] \<and>
     (case dropWhile (\<lambda>c. c = CHR '' '') (dropWhile is_word_char argument) of
        e # c # _ \<Rightarrow> e = CHR ''='' \<and> c \<noteq> CHR ''=''
      | _ \<Rightarrow> False)"

type_synonym arg_tuple = "string list \<times> (string \<times> string) list \<times> string option \<times> string option"

fun classify :: "string list \<Rightarrow> arg_tuple \<Rightarrow> arg_tuple" where
  "classify [] acc = acc"
| "classify (argument # rest) (args, kwargs, exargs, exkwargs) =
     (if is_keyword_arg argument then
        classify rest (args,
          kwargs @ [(strip (takeWhile (\<lambda>c. c \<noteq> CHR ''='') argument),
                     strip (tl (dropWhile (\<lambda>c. c \<noteq> CHR ''='') argument)))],
          exargs, exkwargs)
      else if startswith argument ''**'' then classify rest (args, kwargs, exargs, Some (drop 2 argument))
      else if startswith argument ''*'' then classify rest (args, kwargs, Some (drop 1 argument), exkwargs)
      else classify rest (args @ [argument], kwargs, exargs, exkwargs))"

definition parse_args :: "string \<Rightarrow> error + arg_tuple" where
  "parse_args string =
     bindE (scan_args [None] [] [] (isolate_args string))
       (\<lambda>arguments. Inr (classify arguments ([], [], None, None)))"

text \<open>The reading of the spec's words for the scan: a position is at top level when no
  bracket, parenthesis or brace is open and it is not inside a quoted string; a quote
  closes the string it is in when it is the quote that opened it and an even number of
  backslashes stands right before it. \<open>depth\<close> counts the open containers, \<open>quote\<close> is the
  quote of the string the position is in; the backslashes are counted in the whole text
  read so far (\<open>seen\<close>, latest character first).\<close>

fun top_level_split :: "nat \<Rightarrow> char option \<Rightarrow> string \<Rightarrow> string \<Rightarrow> string \<Rightarrow> string list option" where
  "top_level_split depth quote seen piece [] = Some [piece]"
| "top_level_split depth quote seen piece (c # cs) =
     (case quote of
        Some q \<Rightarrow>
          if c = q \<and> even (length (takeWhile (\<lambda>x. x = CHR 0x5C) seen))
          then top_level_split depth None (c # seen) (piece @ [c]) cs
          else top_level_split depth (Some q) (c # seen) (piece @ [c]) cs
      | None \<Rightarrow>
          if is_quote c then top_level_split depth (Some c) (c # seen) (piece @ [c]) cs
          else if is_open c then top_level_split (Suc depth) None (c # seen) (piece @ [c]) cs
          else if is_close c then
            (case depth of 0 \<Rightarrow> None
             | Suc d \<Rightarrow> top_level_split d None (c # seen) (piece @ [c]) cs)
          else if c = CHR '','' \<and> depth = 0 then
            map_option ((#) piece) (top_level_split depth None (c # seen) [] cs)
          else top_level_split depth None (c # seen) (piece @ [c]) cs)"

section \<open>Node printers\<close>

text \<open>\<open>s.split(sep, 1)\<close> and \<open>s.rsplit(sep, 1)\<close> for a separator that is not empty: the
  parts around its first (last) occurrence, or \<open>None\<close> when it does not occur.\<close>

fun split_first :: "string \<Rightarrow> string \<Rightarrow> (string \<times> string) option" where
  "split_first sep [] = None"
| "split_first sep (c # cs) =
     (if startswith (c # cs) sep then Some ([], drop (length sep) (c # cs))
      else map_option (\<lambda>(a, b). (c # a, b)) (split_first sep cs))"

definition rsplit_first :: "string \<Rightarrow> string \<Rightarrow> (string \<times> string) option" where
  "rsplit_first sep s = map_option (\<lambda>(a, b). (rev b, rev a)) (split_first (rev sep) (rev s))"

text \<open>\<open>len(line) - len(line.lstrip())\<close>.\<close>

definition indent_of :: "string \<Rightarrow> nat" where
  "indent_of line = length line - length (lstrip line)"

subsection \<open>\<open>print_python\<close>\<close>

fun write_lines :: "nat \<Rightarrow> string list \<Rightarrow> pstate \<Rightarrow> pstate" where
  "write_lines code_indent [] st = st"
| "write_lines code_indent (line # lines) st =
     write_lines code_indent lines (write_text (drop code_indent line) (indent st))"

definition print_python :: "string \<Rightarrow> string \<Rightarrow> pstate \<Rightarrow> error + pstate" where
  "print_python header code st =
     (let st1 = indent st in
      if CHR 0x0A \<in> set (strip code) then
        (let lines = splitlines code in
         case find (\<lambda>line. strip line \<noteq> []) lines of
           None \<Rightarrow> Inl StopIteration
         | Some first \<Rightarrow>
             (let code_indent = indent_of first;
                  st2 = shift 1 (write_text ''python:'' st1);
                  st3 = write_lines code_indent lines st2
              in Inr (shift (- 1) st3)))
      else Inr (write_text (''$ '' @ strip code) st1))"

subsection \<open>\<open>print_arguments\<close>\<close>

definition internal_kwarg :: "string \<times> string \<Rightarrow> bool" where
  "internal_kwarg kv \<longleftrightarrow>
     (fst kv = ''id'' \<and> startswith (snd kv) ''_'') \<or> (fst kv = ''scope'' \<and> snd kv = ''_scope'')"

fun write_kwarg_lines :: "(string \<times> string) list \<Rightarrow> pstate \<Rightarrow> pstate" where
  "write_kwarg_lines [] st = st"
| "write_kwarg_lines ((key, v) # kwargs) st =
     write_kwarg_lines kwargs (write_text (key @ '' '' @ v) (indent st))"

fun write_kwarg_inline :: "(string \<times> string) list \<Rightarrow> pstate \<Rightarrow> pstate" where
  "write_kwarg_inline [] st = st"
| "write_kwarg_inline ((key, v) # kwargs) st =
     write_kwarg_inline kwargs (write_text ('' '' @ key @ '' '' @ v) st)"

definition print_arguments ::
  "env \<Rightarrow> string list \<Rightarrow> (string \<times> string) list \<Rightarrow> bool \<Rightarrow> pstate \<Rightarrow> pstate"
where
  "print_arguments E args kwargs multiline st =
     (let st1 = (if args \<noteq> []
                 then write_text ('' '' @ join '' '' (map (simple_expression_guard E) args)) st
                 else st);
          kwargs' = map (\<lambda>(key, v). (key, simple_expression_guard E v))
                        (filter (\<lambda>kv. \<not> internal_kwarg kv) kwargs)
      in if force_multiline_kwargs E \<and> \<not> comparable E \<and> kwargs' \<noteq> [] then
           shift (- 1) (write_kwarg_lines kwargs' (shift 1 (write_text '':'' st1)))
         else
           (let st2 = write_kwarg_inline kwargs' st1
            in if multiline then write_text '':'' st2 else st2))"

subsection \<open>\<open>print_condition\<close>\<close>

definition strip_parens :: "string \<Rightarrow> string" where
  "strip_parens s = (if startswith s ''('' \<and> s \<noteq> [] \<and> last s = CHR '')'' then butlast (drop 1 s) else s)"

definition print_condition :: "string \<Rightarrow> string \<Rightarrow> pstate \<Rightarrow> error + pstate" where
  "print_condition statement line st =
     (let front = (case rsplit_first '':'' line of Some (a, b) \<Rightarrow> a | None \<Rightarrow> line) in
      case split_first statement front of
        None \<Rightarrow> Inl IndexError
      | Some (a, b) \<Rightarrow>
          (let condition = strip b in
           if statement = ''for'' then
             (case split_first '' in '' condition of
                None \<Rightarrow> Inl ValueError
              | Some (variables, expression) \<Rightarrow>
                  Inr (write_text (statement @ '' '' @ strip_parens (strip variables) @ '' in ''
                                   @ expression @ '':'') st))
           else Inr (write_text (statement @ '' '' @ strip_parens (strip condition) @ '':'') st)))"

subsection \<open>\<open>print_block\<close>, \<open>print_if\<close>, \<open>print_for\<close>\<close>

type_synonym node_printer = "string \<Rightarrow> string \<Rightarrow> pstate \<Rightarrow> error + pstate"

definition print_block :: "node_printer \<Rightarrow> string list \<Rightarrow> pstate \<Rightarrow> error + pstate" where
  "print_block pn block st =
     (if length block > 2 \<and> parse_header (block ! 0) \<noteq> None \<and> parse_header (block ! 1) \<noteq> None
      then print_nodes pn (join [CHR 0x0A] (drop 1 block)) 1 st
      else if length block > 1 \<and> parse_header (block ! 0) \<noteq> None
      then print_nodes pn (join [CHR 0x0A] block) 1 st
      else Inr (shift (- 1) (write_text ''pass'' (indent (shift 1 st)))))"

text \<open>The loop of \<open>print_if\<close> over the lines after the first one (which has \<open>i = 0\<close>); the
  line at hand is the last one when no line follows it.\<close>

fun if_lines :: "node_printer \<Rightarrow> nat \<Rightarrow> string list \<Rightarrow> string list \<Rightarrow> pstate \<Rightarrow> error + pstate" where
  "if_lines pn if_indent current_block [] st = Inr st"
| "if_lines pn if_indent current_block (line # rest) st =
     (if startswith (drop if_indent line) ''elif'' then
        bindE (print_block pn current_block st) (\<lambda>st1.
        bindE (print_condition ''elif'' line (indent st1)) (\<lambda>st2.
        if_lines pn if_indent [] rest st2))
      else if startswith (drop if_indent line) ''else'' then
        bindE (print_block pn current_block st) (\<lambda>st1.
        if_lines pn if_indent [] rest (write_text ''else:'' (indent st1)))
      else if rest = [] then print_block pn (current_block @ [line]) st
      else if_lines pn if_indent (current_block @ [line]) rest st)"

definition print_if :: "node_printer \<Rightarrow> string \<Rightarrow> string \<Rightarrow> pstate \<Rightarrow> error + pstate" where
  "print_if pn header code st =
     (let lines = splitlines code in
      if length lines < 2 then Inl IndexError
      else if parse_header (lines ! 1) = None then print_python header code st
      else
        bindE (print_condition ''if'' (lines ! 0) (indent st)) (\<lambda>st1.
        if_lines pn (indent_of (lines ! 0)) [] (drop 1 lines) st1))"

definition print_for :: "node_printer \<Rightarrow> string \<Rightarrow> string \<Rightarrow> pstate \<Rightarrow> error + pstate" where
  "print_for pn header code st =
     (let lines = splitlines code in
      if length lines < 2 then Inl IndexError
      else if parse_header (lines ! 1) = None then print_python header code st
      else
        bindE (print_condition ''for'' (lines ! 0) (indent st)) (\<lambda>st1.
        print_block pn (butlast (drop 1 lines)) st1))"

subsection \<open>\<open>print_use\<close>, \<open>print_default\<close>, \<open>print_hotspot\<close>, \<open>print_ui\<close>\<close>

text \<open>Python's truth value of the captures \<open>exargs\<close> and \<open>exkwargs\<close>: \<open>None\<close> and the empty
  string are false.\<close>

definition given :: "string option \<Rightarrow> bool" where
  "given x \<longleftrightarrow> x \<noteq> None \<and> x \<noteq> Some []"

definition use_arglist :: "string list \<Rightarrow> (string \<times> string) list \<Rightarrow> string option \<Rightarrow> string option \<Rightarrow> string list" where
  "use_arglist args kwargs exargs exkwargs =
     args @ map (\<lambda>(key, v). key @ ''='' @ v) kwargs
          @ (case exargs of Some a \<Rightarrow> if a \<noteq> [] then [''*'' @ a] else [] | None \<Rightarrow> [])
          @ (case exkwargs of Some a \<Rightarrow> if a \<noteq> [] then [''**'' @ a] else [] | None \<Rightarrow> [])"

definition print_use :: "string \<Rightarrow> string \<Rightarrow> pstate \<Rightarrow> error + pstate" where
  "print_use header code st =
     bindE (parse_args (strip code)) (\<lambda>(args0, kwargs0, exargs, exkwargs).
       (let kwargs = filter (\<lambda>(key, v). \<not> (key = ''_scope'' \<or> key = ''_name'')) kwargs0;
            st1 = indent st
        in case args0 of
             [] \<Rightarrow> Inl IndexError
           | a # args \<Rightarrow>
               (let st2 = write_text (''use '' @ butlast (drop 2 a)) st1
                in if args \<noteq> [] \<or> kwargs \<noteq> [] \<or> given exargs \<or> given exkwargs then
                     Inr (write_text '')''
                           (write_text (join '', '' (use_arglist args kwargs exargs exkwargs))
                             (write_text ''('' st2)))
                   else Inr st2)))"

definition print_default :: "string \<Rightarrow> string \<Rightarrow> pstate \<Rightarrow> error + pstate" where
  "print_default header code st =
     bindE (parse_args (strip code)) (\<lambda>(args, kwargs, exargs, exkwargs).
       case args of
         [] \<Rightarrow> Inl IndexError
       | a # rest \<Rightarrow>
           (case split_first [CHR 0x27] a of
              None \<Rightarrow> Inl IndexError
            | Some (x, after) \<Rightarrow>
                (let key = (case rsplit_first [CHR 0x27] after of Some (k, y) \<Rightarrow> k | None \<Rightarrow> after)
                 in case rest of
                      [] \<Rightarrow> Inl IndexError
                    | v # _ \<Rightarrow> Inr (write_text (''default '' @ key @ '' = '' @ v) (indent st)))))"

definition print_hotspot :: "env \<Rightarrow> string \<Rightarrow> string \<Rightarrow> pstate \<Rightarrow> error + pstate" where
  "print_hotspot E header code st =
     (let line = fst (split_nl1 code);
          st1 = write_text ''hotspot'' (indent st)
      in bindE (parse_args line) (\<lambda>(args, kwargs, exargs, exkwargs).
           Inr (print_arguments E args kwargs True st1)))"

definition contains :: "string \<Rightarrow> string \<Rightarrow> bool" where
  "contains s sub \<longleftrightarrow> sub = [] \<or> split_first sub s \<noteq> None"

definition print_ui :: "node_printer \<Rightarrow> env \<Rightarrow> string \<Rightarrow> string \<Rightarrow> pstate \<Rightarrow> error + pstate" where
  "print_ui pn E header code st =
     (let line = fst (split_nl1 code);
          block = (case snd (split_nl1 code) of Some b \<Rightarrow> b | None \<Rightarrow> [])
      in case split_first ''ui.'' line of
           None \<Rightarrow> Inl IndexError
         | Some (x, after) \<Rightarrow>
             (let name = (case split_first ''('' after of Some (n, y) \<Rightarrow> n | None \<Rightarrow> after);
                  st1 = write_text name (indent st)
              in bindE (parse_args line) (\<lambda>(args, kwargs, exargs, exkwargs).
                   (let block' = (if contains (fst (split_nl1 block)) ''ui.child_or_fixed()''
                                  then (case snd (split_nl1 block) of Some b \<Rightarrow> b | None \<Rightarrow> [])
                                  else block)
                    in print_nodes pn block' 1 (print_arguments E args kwargs (block' \<noteq> []) st1)))))"

section \<open>Statement Dispatcher: \<open>print_node\<close>\<close>

datatype handler = Print_if | Print_for | Print_use | Print_default | Print_hotspot | Print_ui

text \<open>The class-wide table \<open>dispatch\<close>, in the order in which the source fills it.\<close>

definition dispatch :: "(string \<times> handler) list" where
  "dispatch =
    [(''if'', Print_if), (''for'', Print_for), (''renpy.use_screen'', Print_use),
     (''_scope.setdefault'', Print_default), (''ui.hotspot_with_child'', Print_hotspot),
     (''ui.add'', Print_ui), (''ui.imagebutton'', Print_ui), (''ui.input'', Print_ui),
     (''ui.key'', Print_ui), (''ui.label'', Print_ui), (''ui.text'', Print_ui),
     (''ui.null'', Print_ui), (''ui.mousearea'', Print_ui), (''ui.textbutton'', Print_ui),
     (''ui.timer'', Print_ui), (''ui.bar'', Print_ui), (''ui.vbar'', Print_ui),
     (''ui.hotbar'', Print_ui), (''ui.button'', Print_ui), (''ui.frame'', Print_ui),
     (''ui.transform'', Print_ui), (''ui.viewport'', Print_ui), (''ui.window'', Print_ui),
     (''ui.drag'', Print_ui), (''ui.fixed'', Print_ui), (''ui.grid'', Print_ui),
     (''ui.hbox'', Print_ui), (''ui.side'', Print_ui), (''ui.vbox'', Print_ui),
     (''ui.imagemap'', Print_ui), (''ui.draggroup'', Print_ui)]"

text \<open>\<open>dispatch\<close> is a Python 2 dictionary and \<open>iteritems()\<close> visits it in an order the
  language leaves open: \<open>select_handler\<close> takes the order of the visit as the list
  \<open>items\<close> and returns the handler of the first entry whose key starts the code.\<close>

definition select_handler :: "(string \<times> handler) list \<Rightarrow> string \<Rightarrow> handler option" where
  "select_handler items code =
     map_option snd (find (\<lambda>(statement, func). startswith (lstrip code) statement) items)"

text \<open>\<open>re.match(r' *_[0-9]+ = 0', code)\<close>.\<close>

definition for_marker :: "string \<Rightarrow> bool" where
  "for_marker code =
     (case expect ''_'' (dropWhile (\<lambda>c. c = CHR '' '') code) of None \<Rightarrow> False
      | Some s1 \<Rightarrow> takeWhile is_digit s1 \<noteq> [] \<and> expect '' = 0'' (dropWhile is_digit s1) \<noteq> None)"

definition run_handler :: "node_printer \<Rightarrow> env \<Rightarrow> handler \<Rightarrow> node_printer" where
  "run_handler pn E func header code st =
     (case func of
        Print_if \<Rightarrow> print_if pn header code st
      | Print_for \<Rightarrow> print_for pn header code st
      | Print_use \<Rightarrow> print_use header code st
      | Print_default \<Rightarrow> print_default header code st
      | Print_hotspot \<Rightarrow> print_hotspot E header code st
      | Print_ui \<Rightarrow> print_ui pn E header code st)"

text \<open>The body of \<open>print_node\<close>; the calls it makes to itself through the handlers go
  to \<open>pn\<close>.\<close>

definition print_node_body :: "node_printer \<Rightarrow> env \<Rightarrow> (string \<times> handler) list \<Rightarrow> node_printer" where
  "print_node_body pn E items header code st =
     bindE (if for_marker code
            then (case snd (split_nl1 code) of None \<Rightarrow> Inl ValueError | Some c \<Rightarrow> Inr c)
            else Inr code) (\<lambda>code'.
       case select_handler items code' of
         Some func \<Rightarrow> run_handler pn E func header code' st
       | None \<Rightarrow> print_python header code' st)"

section \<open>Screen Preamble Printer: \<open>print_screen\<close>\<close>

text \<open>
  The screen statement as \<open>print_screen\<close> reads it. \<open>ast_parameters\<close> is the text
  \<open>reconstruct_paraminfo\<close> gives for the parameters, when there are parameters;
  \<open>ast_zorder\<close>, \<open>ast_modal\<close> and \<open>ast_variant\<close> are \<open>Some\<close> text when the value is a
  \<open>unicode\<close> string; \<open>ast_code\<close> is the text \<open>codegen.to_source\<close> renders for
  \<open>ast.code.source\<close>.
\<close>

record screen_ast =
  ast_name :: string
  ast_parameters :: "string option"
  ast_zorder :: "string option"
  ast_modal :: "string option"
  ast_variant :: "string option"
  ast_tag :: "string option"
  ast_code :: string

text \<open>The loop over \<open>('zorder', 'modal', 'variant')\<close>: the words appended to the
  \<open>WordConcatenator\<close> (one list for each \<open>append\<close> call) and the clauses kept for lines of
  their own. \<open>value[-1]\<close> of an empty string raises \<open>IndexError\<close>.\<close>

fun screen_kwargs ::
  "env \<Rightarrow> (string \<times> string option) list \<Rightarrow> string list list \<times> string list \<Rightarrow>
   error + string list list \<times> string list"
where
  "screen_kwargs E [] acc = Inr acc"
| "screen_kwargs E ((key, None) # rest) acc = screen_kwargs E rest acc"
| "screen_kwargs E ((key, Some v) # rest) (for_screen_line, for_separate_lines) =
     (if v = [] then Inl IndexError
      else if last v \<noteq> CHR '' '' \<or> simple_expression_guard E v \<noteq> strip v
      then screen_kwargs E rest
             (for_screen_line, for_separate_lines @ [key @ '' '' @ simple_expression_guard E v])
      else screen_kwargs E rest (for_screen_line @ [[key, v]], for_separate_lines))"

fun write_each :: "string list \<Rightarrow> pstate \<Rightarrow> pstate" where
  "write_each [] st = st"
| "write_each (i # rest) st = write_each rest (write_text i (indent st))"

text \<open>Lines 117 to 119: the text handed to \<open>print_nodes\<close>.\<close>

definition screen_body :: "string \<Rightarrow> string" where
  "screen_body code = join [CHR 0x0A] (filter (\<lambda>line. strip line \<noteq> ''ui.close()'') (splitlines code))"

text \<open>The part of \<open>print_screen\<close> before the body: the screen line, the clauses on lines
  of their own and the tag. It leaves the indentation one level deeper.\<close>

definition screen_preamble :: "env \<Rightarrow> screen_ast \<Rightarrow> pstate \<Rightarrow> error + pstate" where
  "screen_preamble E ast st =
     (let st1 = write_text (''screen '' @ ast_name ast) (indent st);
          st2 = (case ast_parameters ast of Some p \<Rightarrow> write_text p st1 | None \<Rightarrow> st1)
      in bindE (screen_kwargs E [(''zorder'', ast_zorder ast), (''modal'', ast_modal ast),
                                  (''variant'', ast_variant ast)] ([], []))
           (\<lambda>(for_screen_line, for_separate_lines).
         (let words = (if for_separate_lines \<noteq> []
                       then for_screen_line @ [[hd for_separate_lines]] else for_screen_line);
              st3 = shift 1 (write_text (word_join E words @ '':'') st2);
              st4 = write_each (drop 1 for_separate_lines) st3
          in Inr (if given (ast_tag ast)
                  then write_text (''tag '' @ the (ast_tag ast)) (indent st4) else st4))))"

definition print_screen :: "node_printer \<Rightarrow> env \<Rightarrow> screen_ast \<Rightarrow> pstate \<Rightarrow> error + pstate" where
  "print_screen pn E ast st =
     bindE (screen_preamble E ast st) (\<lambda>st5.
       if \<not> decompile_python E then
         Inr (write_text ''pass # Screen code not extracted'' (indent st5))
       else if decompile_screencode E then
         bindE (print_nodes pn (screen_body (ast_code ast)) 0 st5) (\<lambda>st6.
         Inr (shift (- 1) st6))
       else
         (let st6 = shift 1 (write_text ''python:'' (indent st5));
              st7 = write_each (drop 1 (splitlines (ast_code ast))) st6
          in Inr (shift (- 1) (shift (- 1) st7))))"

text \<open>\<open>print_node\<close> itself: the recursion of the printers is bounded by the interpreter's
  recursion limit, here the number \<open>depth\<close> of nested calls still allowed.\<close>

fun print_node :: "nat \<Rightarrow> env \<Rightarrow> (string \<times> handler) list \<Rightarrow> node_printer" where
  "print_node 0 E items header code st = Inl RecursionLimit"
| "print_node (Suc depth) E items header code st =
     print_node_body (print_node depth E items) E items header code st"

section \<open>Notions of the specification\<close>

text \<open>The registry is prefix-free when no key of an entry starts the key of another
  entry.\<close>

definition prefix_free :: "(string \<times> handler) list \<Rightarrow> bool" where
  "prefix_free items \<longleftrightarrow>
     (\<forall>e1 \<in> set items. \<forall>e2 \<in> set items. startswith (fst e2) (fst e1) \<longrightarrow> fst e1 = fst e2)"

text \<open>The minimum indentation of a block: the least indentation among its lines that are
  not blank (0 for a block of blank lines); and the block with that indentation removed
  from every line.\<close>

definition min_indent :: "string list \<Rightarrow> nat" where
  "min_indent lines =
     (case filter (\<lambda>line. strip line \<noteq> []) lines of
        [] \<Rightarrow> 0
      | l # ls \<Rightarrow> fold (\<lambda>line m. min (indent_of line) m) ls (indent_of l))"

definition dedent_min :: "string list \<Rightarrow> string list" where
  "dedent_min lines = map (drop (min_indent lines)) lines"

text \<open>The stack the scan of \<open>parse_args\<close> holds when the position is inside the string
  opened by \<open>quote\<close> (if any) and \<open>opens\<close> are the open containers, innermost first; and what
  links the scan's state to the reading above: the containers are brackets, parentheses
  or braces, \<open>depth\<close> is their number, the argument read so far holds the quote that
  opened the string, and it is the end of the text read so far.\<close>

definition stack_of :: "char option \<Rightarrow> char option list \<Rightarrow> char option list" where
  "stack_of quote opens = (case quote of None \<Rightarrow> [] | Some q \<Rightarrow> [Some q]) @ opens @ [None]"

definition opens_ok :: "char option list \<Rightarrow> bool" where
  "opens_ok opens \<longleftrightarrow> (\<forall>x \<in> set opens. \<exists>c. x = Some c \<and> is_open c)"

definition scan_inv :: "nat \<Rightarrow> char option \<Rightarrow> string \<Rightarrow> string \<Rightarrow> char option list \<Rightarrow> bool" where
  "scan_inv depth quote seen cur opens \<longleftrightarrow>
     opens_ok opens \<and> length opens = depth \<and>
     (\<forall>q. quote = Some q \<longrightarrow> is_quote q \<and> (\<exists>c \<in> set cur. c \<noteq> CHR 0x5C)) \<and>
     (\<exists>pre. seen = rev cur @ pre)"

text \<open>
  A flattened body built from lines: a line is a sibling header (spaces, the header of the
  child \<open>own\<close> with its index, spaces; the parent is the one of the block) or a line of
  other text. The text of the block is its lines joined by newlines, as \<open>print_screen\<close> and
  \<open>print_block\<close> build it.
\<close>

datatype line = Hdr nat string bool string nat | Txt string

fun render :: "string \<Rightarrow> line \<Rightarrow> string" where
  "render P (Hdr sp1 own u idx sp2) =
     replicate sp1 CHR '' '' @ header_text own P u idx @ replicate sp2 CHR '' ''"
| "render P (Txt t) = t"

definition text_of :: "string \<Rightarrow> line list \<Rightarrow> string" where
  "text_of P lines = join [CHR 0x0A] (map (render P) lines)"

text \<open>A text holds a header of the parent \<open>P\<close> when a header naming \<open>P\<close> as parent occurs
  somewhere in it.\<close>

definition contains_header :: "string \<Rightarrow> string \<Rightarrow> bool" where
  "contains_header P t \<longleftrightarrow>
     (\<exists>pre own u idx post. digits own \<and> digits idx \<and> t = pre @ header_text own P u idx @ post)"

fun wf_line :: "string \<Rightarrow> line \<Rightarrow> bool" where
  "wf_line P (Hdr sp1 own u idx sp2) \<longleftrightarrow> digits own \<and> digits idx"
| "wf_line P (Txt t) \<longleftrightarrow> CHR 0x0A \<notin> set t \<and> \<not> contains_header P t"

fun is_hdr :: "line \<Rightarrow> bool" where
  "is_hdr (Hdr sp1 own u idx sp2) = True"
| "is_hdr (Txt t) = False"

fun hdr_ids :: "string \<Rightarrow> line \<Rightarrow> (string \<times> string \<times> string) option" where
  "hdr_ids P (Hdr sp1 own u idx sp2) = Some (own, P, idx)"
| "hdr_ids P (Txt t) = None"

text \<open>The children of such a block, read off its lines: a header line opens a child, and
  the lines of other text up to the next header line are its body; every line but the last
  one of the block carries its newline. The first component is the text before the first
  header line.\<close>

fun lines_split :: "string \<Rightarrow> line list \<Rightarrow> string \<times> (string \<times> string) list" where
  "lines_split P [] = ([], [])"
| "lines_split P [Txt t] = (t, [])"
| "lines_split P [Hdr sp1 own u idx sp2] = ([], [(render P (Hdr sp1 own u idx sp2), [])])"
| "lines_split P (Txt t # l # ls) =
     (case lines_split P (l # ls) of (g, nodes) \<Rightarrow> (t @ CHR 0x0A # g, nodes))"
| "lines_split P (Hdr sp1 own u idx sp2 # l # ls) =
     (case lines_split P (l # ls) of (g, nodes) \<Rightarrow>
        ([], (render P (Hdr sp1 own u idx sp2) @ [CHR 0x0A], g) # nodes))"

section \<open>Properties of the Header Codec\<close>

lemma expect_append [simp]: "expect p (p @ s) = Some s"
  by (induction p) auto

lemma expect_Some_iff: "expect p s = Some r \<longleftrightarrow> s = p @ r"
  by (induction p s rule: expect.induct) auto

lemma not_digit_simps [simp]:
  "\<not> is_digit CHR '' ''" "\<not> is_digit CHR '',''" "\<not> is_digit CHR '')''" "\<not> is_digit CHR ''_''"
  "\<not> is_digit CHR ''n''"
  by (simp_all add: is_digit_def)

lemma tw_digits [simp]:
  "\<forall>c\<in>set d. is_digit c \<Longrightarrow> \<not> is_digit x \<Longrightarrow> takeWhile is_digit (d @ x # r) = d"
  by (induction d) auto

lemma dw_digits [simp]:
  "\<forall>c\<in>set d. is_digit c \<Longrightarrow> \<not> is_digit x \<Longrightarrow> dropWhile is_digit (d @ x # r) = x # r"
  by (induction d) auto

lemma parent_alt_digits:
  "digits par \<Longrightarrow> parent_alt (par @ CHR '','' # r) = Some (par, CHR '','' # r)"
  by (simp add: parent_alt_def digits_def)

lemma parent_alt_name:
  "parent_alt (''name'' @ r) = Some (''name'', r)"
  by (simp add: parent_alt_def is_digit_def)

lemma dw_spaces:
  "dropWhile (\<lambda>c. c = CHR '' '') (replicate n CHR '' '' @ CHR ''_'' # r) = CHR ''_'' # r"
  by (induction n) auto

lemma header_groups_text:
  assumes "digits own" "digits par \<or> par = ''name''" "digits idx"
  shows "header_groups (replicate n CHR '' '' @ header_text own par u idx @ post) = Some (own, par, idx)"
proof -
  have pa: "parent_alt (par @ CHR '','' # r) = Some (par, CHR '','' # r)" for r
    using assms(2) parent_alt_digits parent_alt_name by fastforce
  have ou: "opt_underscore (idx @ r) = idx @ r" for r
    using assms(3) by (cases idx) (auto simp: opt_underscore_def digits_def)
  have ou2: "opt_underscore (CHR ''_'' # r) = r" for r
    by (simp add: opt_underscore_def)
  have d: "\<forall>c\<in>set own. is_digit c" "\<forall>c\<in>set idx. is_digit c" "own \<noteq> []" "idx \<noteq> []"
    using assms by (auto simp: digits_def)
  show ?thesis
    by (cases u) (simp_all add: header_groups_def header_text_def dw_spaces pa ou ou2 d)
qed

lemma header_groups_shape:
  assumes "header_groups s = Some (own, par, idx)"
  shows "header_shaped s"
proof -
  from assms obtain s1 s2 s3 s4 s5 where
    a: "dropWhile (\<lambda>c. c = CHR '' '') s = ''_'' @ s1"
    and own: "own = takeWhile is_digit s1" "own \<noteq> []"
    and b: "dropWhile is_digit s1 = '' = (_'' @ s2"
    and c: "parent_alt s2 = Some (par, s3)"
    and d: "s3 = '', '' @ s4"
    and idx: "idx = takeWhile is_digit (opt_underscore s4)" "idx \<noteq> []"
    and e: "dropWhile is_digit (opt_underscore s4) = '')'' @ s5"
    unfolding header_groups_def
    by (auto split: option.splits if_splits simp: expect_Some_iff)
  have par: "(digits par \<or> par = ''name'') \<and> s2 = par @ s3"
    using c unfolding parent_alt_def digits_def
    by (auto split: option.splits if_splits simp: expect_Some_iff dest: set_takeWhileD)
  obtain u where u: "s4 = (if u then ''_'' else []) @ opt_underscore s4"
  proof (cases "\<exists>r. s4 = CHR ''_'' # r")
    case True
    then have "s4 = (if True then ''_'' else []) @ opt_underscore s4"
      by (auto simp: opt_underscore_def)
    then show ?thesis using that by blast
  next
    case False
    then have "s4 = (if False then ''_'' else []) @ opt_underscore s4"
      by (cases s4) (auto simp: opt_underscore_def)
    then show ?thesis using that by blast
  qed
  have s1: "s1 = own @ '' = (_'' @ s2"
    using own(1) b takeWhile_dropWhile_id[of is_digit s1] by simp
  have o4: "opt_underscore s4 = idx @ '')'' @ s5"
    using idx(1) e takeWhile_dropWhile_id[of is_digit "opt_underscore s4"] by simp
  have s: "s = takeWhile (\<lambda>c. c = CHR '' '') s @ ''_'' @ s1"
    using a takeWhile_dropWhile_id[of "\<lambda>c. c = CHR '' ''" s] by simp
  have "s = takeWhile (\<lambda>c. c = CHR '' '') s @ header_text own par u idx @ s5"
    apply (subst s) apply (subst s1) apply (simp only: par[THEN conjunct2] d)
    apply (subst u) apply (subst o4) apply (simp add: header_text_def)
    done
  moreover have "digits own" "digits idx"
    using own idx by (auto simp: digits_def dest: set_takeWhileD)
  ultimately show ?thesis
    unfolding header_shaped_def using par by blast
qed

lemma parse_header_shape: "parse_header l = Some g \<Longrightarrow> header_shaped l"
proof (induction l)
  case Nil
  then show ?case by (cases g) (auto dest: header_groups_shape)
next
  case (Cons c cs)
  show ?case
  proof (cases "header_groups (c # cs)")
    case None
    with Cons have "header_shaped cs" by simp
    then obtain pre own par u idx post where
      h: "digits own" "digits par \<or> par = ''name''" "digits idx"
         "cs = pre @ header_text own par u idx @ post"
      unfolding header_shaped_def by blast
    have "c # cs = (c # pre) @ header_text own par u idx @ post"
      using h(4) by simp
    with h(1-3) show ?thesis
      unfolding header_shaped_def by blast
  next
    case (Some a)
    then show ?thesis by (cases a) (auto dest: header_groups_shape)
  qed
qed

lemma header_groups_nospace:
  assumes "\<forall>c\<in>set pre. is_space c" "\<exists>c\<in>set pre. c \<noteq> CHR '' ''"
  shows "header_groups (pre @ CHR ''_'' # r) = None"
proof -
  from split_list_first_prop[OF assms(2)]
  obtain a x b where p: "pre = a @ x # b" "x \<noteq> CHR '' ''" "\<forall>c\<in>set a. c = CHR '' ''"
    by auto
  have "is_space x" using assms(1) p by simp
  then have "x \<noteq> CHR ''_''" by (auto simp: is_space_def)
  have "dropWhile (\<lambda>c. c = CHR '' '') (pre @ CHR ''_'' # r) = x # b @ CHR ''_'' # r"
    using p by (simp add: dropWhile_append3 dropWhile_append2)
  then show ?thesis using \<open>x \<noteq> CHR ''_''\<close> by (simp add: header_groups_def)
qed

lemma parse_header_text:
  assumes "digits own" "digits par \<or> par = ''name''" "digits idx" "\<forall>c\<in>set pre. is_space c"
  shows "parse_header (pre @ header_text own par u idx @ post) = Some (own, par, idx)"
  using assms(4)
proof (induction pre)
  case Nil
  have "header_groups (replicate 0 CHR '' '' @ header_text own par u idx @ post) = Some (own, par, idx)"
    using assms(1-3) by (rule header_groups_text)
  then show ?case by (cases "header_text own par u idx @ post") (auto simp: header_text_def)
next
  case (Cons c pre)
  show ?case
  proof (cases "\<forall>x\<in>set (c # pre). x = CHR '' ''")
    case True
    then have "replicate (length (c # pre)) CHR '' '' = c # pre"
      by (intro replicate_length_same) auto
    then have "header_groups ((c # pre) @ header_text own par u idx @ post) = Some (own, par, idx)"
      using header_groups_text[OF assms(1-3), of "length (c # pre)" u post] by (simp only:)
    then show ?thesis by simp
  next
    case False
    then have "header_groups ((c # pre) @ header_text own par u idx @ post) = None"
      using header_groups_nospace[of "c # pre"] Cons.prems by (simp add: header_text_def)
    then show ?thesis using Cons by simp
  qed
qed

lemma parse_header_skip: "header_groups s \<noteq> None \<Longrightarrow> parse_header (pre @ s) \<noteq> None"
proof (induction pre)
  case Nil
  then show ?case by (cases s) auto
next
  case (Cons c pre)
  then show ?case by (cases "header_groups (c # pre @ s)") auto
qed

lemma parse_header_shape_iff: "parse_header l \<noteq> None \<longleftrightarrow> header_shaped l"
proof
  assume "parse_header l \<noteq> None"
  then show "header_shaped l" using parse_header_shape by blast
next
  assume "header_shaped l"
  then obtain pre own par u idx post where
      h: "digits own" "digits par \<or> par = ''name''" "digits idx"
         "l = pre @ header_text own par u idx @ post"
      unfolding header_shaped_def by blast
  have "header_groups (header_text own par u idx @ post) \<noteq> None"
    using header_groups_text[OF h(1-3), of 0 u post] by simp
  then show "parse_header l \<noteq> None"
    unfolding h(4) using parse_header_skip by simp
qed

text \<open>
  Claim C2. For every triple of decimal strings \<open>(own, par, idx)\<close>, the header line built
  from it, with whitespace before it, any text after it and with or without the underscore
  before the index, is parsed back to exactly that triple; and a line in which the header
  pattern does not occur yields the explicit result \<open>None\<close> (the function is total, it has
  no failing branch).
\<close>

theorem parse_header_codec:
  "(digits own \<and> digits par \<and> digits idx \<and> (\<forall>c\<in>set pre. is_space c) \<longrightarrow>
      parse_header (pre @ header_text own par u idx @ post) = Some (own, par, idx)) \<and>
   (\<not> header_shaped l \<longrightarrow> parse_header l = None)"
  using parse_header_text[of own par idx pre u post] parse_header_shape[of l]
  by (cases "parse_header l") auto

theorem parse_header_codec_witness:
  "digits ''12'' \<and> digits ''7'' \<and> digits ''03'' \<and> list_all is_space ''  '' \<and>
   parse_header (''  '' @ header_text ''12'' ''7'' True ''03'' @ '' '') = Some (''12'', ''7'', ''03'') \<and>
   \<not> header_shaped ''ui.close()'' \<and> parse_header ''ui.close()'' = None"
proof -
  have n: "parse_header ''ui.close()'' = None"
    by (simp add: header_groups_def)
  then have "\<not> header_shaped ''ui.close()''"
    using parse_header_shape_iff by blast
  moreover have h: "digits ''12'' \<and> digits ''7'' \<and> digits ''03'' \<and> (\<forall>c\<in>set ''  ''. is_space c)"
    by (simp add: digits_def is_digit_def is_space_def)
  ultimately show ?thesis
    using parse_header_codec[of "''12''" "''7''" "''03''" "''  ''" True "'' ''" "''ui.close()''"] h
    by (simp add: list_all_iff)
qed

section \<open>Sequencing and the writer\<close>

lemma bindE_simps [simp]:
  "bindE (Inl e) f = Inl e" "bindE (Inr x) f = f x"
  by (simp_all add: bindE_def)

lemma bindE_Inr_iff: "bindE m f = Inr y \<longleftrightarrow> (\<exists>x. m = Inr x \<and> f x = Inr y)"
  by (cases m) auto

lemma indent_level_simps [simp]:
  "indent_level (indent st) = indent_level st"
  "indent_level (write_text s st) = indent_level st"
  "indent_level (shift k st) = indent_level st + k"
  by (simp_all add: indent_def write_text_def shift_def)

lemma out_simps [simp]:
  "out (indent st) = out st @ [EvIndent (indent_level st)]"
  "out (write_text s st) = out st @ [EvWrite s]"
  "out (shift k st) = out st"
  by (simp_all add: indent_def write_text_def shift_def)

lemma shift_shift [simp]: "shift (- k) (shift k st) = st" "shift 0 st = st"
  by (simp_all add: shift_def)

lemma write_each_level [simp]: "indent_level (write_each xs st) = indent_level st"
  by (induction xs arbitrary: st) auto

section \<open>The Block Splitter on texts without header\<close>

lemma split_nl1_no_newline: "CHR 0x0A \<notin> set code \<Longrightarrow> split_nl1 code = (code, None)"
  by (simp add: split_nl1_def)

text \<open>
  Claim C3, as the code has it. A text of a single line (no newline in it), with or without
  a header, has no children: \<open>print_nodes\<close> calls no node printer and returns with the
  state it was given. A text of several lines whose first line holds no header is not
  accepted: unpacking the result of \<open>parse_header\<close> raises \<open>TypeError\<close>.
\<close>

theorem print_nodes_single_line:
  "(CHR 0x0A \<notin> set code \<longrightarrow>
      child_nodes code = Inr [] \<and> print_nodes pn code extra_indent st = Inr st) \<and>
   (CHR 0x0A \<in> set code \<and> parse_header (takeWhile (\<lambda>c. c \<noteq> CHR 0x0A) code) = None \<longrightarrow>
      print_nodes pn code extra_indent st = Inl TypeError)"
  by (simp add: print_nodes_def child_nodes_def split_nl1_def)

theorem print_nodes_single_line_witness:
  "CHR 0x0A \<notin> set ''ui.close()'' \<and>
   child_nodes ''ui.close()'' = Inr [] \<and>
   print_nodes (\<lambda>h c s. Inl ValueError) ''ui.close()'' 1 \<lparr>indent_level = 0, out = []\<rparr>
     = Inr \<lparr>indent_level = 0, out = []\<rparr> \<and>
   CHR 0x0A \<in> set (''a = 1'' @ [CHR 0x0A] @ ''b = 2'') \<and>
   parse_header (takeWhile (\<lambda>c. c \<noteq> CHR 0x0A) (''a = 1'' @ [CHR 0x0A] @ ''b = 2'')) = None \<and>
   print_nodes (\<lambda>h c s. Inr s) (''a = 1'' @ [CHR 0x0A] @ ''b = 2'') 1 \<lparr>indent_level = 0, out = []\<rparr>
     = Inl TypeError"
proof -
  have a: "CHR 0x0A \<notin> set ''ui.close()''" by simp
  have b: "CHR 0x0A \<in> set (''a = 1'' @ [CHR 0x0A] @ ''b = 2'')" by simp
  have c: "parse_header (takeWhile (\<lambda>c. c \<noteq> CHR 0x0A) (''a = 1'' @ [CHR 0x0A] @ ''b = 2'')) = None"
    by (simp add: header_groups_def)
  show ?thesis
    using print_nodes_single_line[of "''ui.close()''" "\<lambda>h c s. Inl ValueError" 1 "\<lparr>indent_level = 0, out = []\<rparr>"]
      print_nodes_single_line[of "''a = 1'' @ [CHR 0x0A] @ ''b = 2''" "\<lambda>h c s. Inr s" 1 "\<lparr>indent_level = 0, out = []\<rparr>"]
      a b c by blast
qed

text \<open>
  Claim C3 as stated fails: the two-line text \<open>a = 1\<close>, \<open>b = 2\<close> holds no header
  anywhere, and \<open>print_nodes\<close> raises \<open>TypeError\<close> on it.
\<close>

theorem print_nodes_no_header_raises:
  "parse_header (''a = 1'' @ [CHR 0x0A] @ ''b = 2'') = None \<and>
   (\<forall>pn extra_indent st.
      print_nodes pn (''a = 1'' @ [CHR 0x0A] @ ''b = 2'') extra_indent st = Inl TypeError)"
  by (simp add: print_nodes_def child_nodes_def split_nl1_def header_groups_def)

section \<open>Disambiguation in \<open>print_if\<close> and \<open>print_for\<close>\<close>

text \<open>
  Claim C4 at a body of one line: \<open>lines[1]\<close> does not exist, and both handlers raise
  \<open>IndexError\<close> before they reach the python fallback.
\<close>

theorem print_if_for_single_line:
  "print_if pn header ''if_seen = 1'' st = Inl IndexError \<and>
   print_for pn header ''format_all()'' st = Inl IndexError"
  by (simp add: print_if_def print_for_def splitlines_def is_linebreak_def)

section \<open>The Argument Parser and top-level commas\<close>

lemma open_not_quote: "is_open c \<Longrightarrow> \<not> is_quote c"
  by (auto simp: is_open_def is_quote_def)

lemma close_not_open: "is_close c \<Longrightarrow> \<not> is_open c \<and> \<not> is_quote c"
  by (auto simp: is_open_def is_close_def is_quote_def)

lemma comma_plain: "\<not> is_quote CHR '',''" "\<not> is_open CHR '',''" "\<not> is_close CHR '',''"
  by (auto simp: is_open_def is_close_def is_quote_def)

lemma top_not_in_string:
  assumes "opens_ok opens"
  shows "\<exists>t below. opens @ [None] = t # below \<and> \<not> in_string t"
proof (cases opens)
  case Nil
  then show ?thesis by (simp add: in_string_def)
next
  case (Cons x xs)
  then obtain c where "x = Some c" "is_open c" using assms by (auto simp: opens_ok_def)
  then show ?thesis using Cons by (simp add: in_string_def open_not_quote)
qed

lemma trailing_slashes_seen:
  assumes "seen = rev cur @ pre" "\<exists>c \<in> set cur. c \<noteq> CHR 0x5C"
  shows "length (takeWhile (\<lambda>x. x = CHR 0x5C) seen) = count_trailing_slashes cur"
proof -
  from assms(2) obtain c where c: "c \<in> set (rev cur)" "\<not> (c = CHR 0x5C)" by auto
  have "takeWhile (\<lambda>x. x = CHR 0x5C) (rev cur @ pre) = takeWhile (\<lambda>x. x = CHR 0x5C) (rev cur)"
    using c by (rule takeWhile_append1)
  then show ?thesis by (simp add: assms(1) count_trailing_slashes_def)
qed

lemma scan_step:
  assumes "stack_step st cur c = Inr st'" "\<not> (length st' = 1 \<and> c = CHR '','')"
  shows "scan_args st cur args (c # cs) = scan_args st' (cur @ [c]) args cs"
  using assms by auto

lemma scan_step_comma:
  assumes "stack_step st cur c = Inr st'" "length st' = 1" "c = CHR '',''"
  shows "scan_args st cur args (c # cs) = scan_args st' [] (args @ [strip cur]) cs"
  using assms by auto

lemma scan_inv_append:
  assumes "scan_inv depth quote seen cur opens"
  shows "scan_inv depth quote (c # seen) (cur @ [c]) opens"
  using assms unfolding scan_inv_def by auto

lemma scan_inv_close_string:
  assumes "scan_inv depth quote seen cur opens"
  shows "scan_inv depth None (c # seen) (cur @ [c]) opens"
  using assms unfolding scan_inv_def by auto

lemma scan_inv_open_string:
  assumes "scan_inv depth None seen cur opens" "is_quote c"
  shows "scan_inv depth (Some c) (c # seen) (cur @ [c]) opens"
proof -
  have "c \<noteq> CHR 0x5C" using assms(2) by (auto simp: is_quote_def)
  then show ?thesis using assms unfolding scan_inv_def by auto
qed

lemma scan_inv_push:
  assumes "scan_inv depth None seen cur opens" "is_open c"
  shows "scan_inv (Suc depth) None (c # seen) (cur @ [c]) (Some c # opens)"
  using assms unfolding scan_inv_def opens_ok_def by auto

lemma scan_inv_pop:
  assumes "scan_inv (Suc depth) None seen cur (x # opens)"
  shows "scan_inv depth None (c # seen) (cur @ [c]) opens"
  using assms unfolding scan_inv_def opens_ok_def by auto

lemma scan_inv_comma:
  assumes "scan_inv depth None seen cur opens"
  shows "scan_inv depth None (c # seen) [] opens"
  using assms unfolding scan_inv_def by auto

lemma step_in_string:
  assumes "scan_inv depth (Some q) seen cur opens"
  shows "stack_step (stack_of (Some q) opens) cur c =
     Inr (if c = q \<and> even (length (takeWhile (\<lambda>x. x = CHR 0x5C) seen))
          then stack_of None opens else stack_of (Some q) opens)"
proof -
  from assms obtain pre where q: "is_quote q" "\<exists>c \<in> set cur. c \<noteq> CHR 0x5C" "seen = rev cur @ pre"
    unfolding scan_inv_def by auto
  have ts: "length (takeWhile (\<lambda>x. x = CHR 0x5C) seen) = count_trailing_slashes cur"
    using trailing_slashes_seen[OF q(3) q(2)] .
  show ?thesis
    using q(1) by (auto simp: stack_step_def stack_of_def in_string_def ts)
qed

lemma step_outside:
  assumes "scan_inv depth None seen cur opens"
  shows "stack_step (stack_of None opens) cur c =
     (if is_quote c then Inr (stack_of (Some c) opens)
      else if is_open c then Inr (stack_of None (Some c # opens))
      else if is_close c then Inr (tl (stack_of None opens))
      else Inr (stack_of None opens))"
proof -
  have "opens_ok opens" using assms by (simp add: scan_inv_def)
  from top_not_in_string[OF this] obtain t below where
    tb: "opens @ [None] = t # below" "\<not> in_string t" by blast
  show ?thesis
    using tb by (simp add: stack_step_def stack_of_def)
qed

lemma stack_len [simp]:
  "length (stack_of None opens) = Suc (length opens)"
  "length (stack_of (Some q) opens) = Suc (Suc (length opens))"
  by (simp_all add: stack_of_def)

lemma scan_refines:
  assumes "top_level_split depth quote seen cur s = Some pieces"
    and "scan_inv depth quote seen cur opens"
  shows "scan_args (stack_of quote opens) cur arguments s = Inr (arguments @ map strip pieces)"
  using assms
proof (induction s arbitrary: depth quote seen cur pieces opens arguments)
  case Nil
  then show ?case by auto
next
  case (Cons c cs)
  note inv = Cons.prems(2)
  show ?case
  proof (cases quote)
    case (Some q)
    show ?thesis
    proof (cases "c = q \<and> even (length (takeWhile (\<lambda>x. x = CHR 0x5C) seen))")
      case True
      have split: "top_level_split depth None (c # seen) (cur @ [c]) cs = Some pieces"
        using Cons.prems(1) Some True by simp
      have step: "stack_step (stack_of quote opens) cur c = Inr (stack_of None opens)"
        using step_in_string[of depth q seen cur opens c] inv Some True by simp
      have "is_quote q" using inv Some by (simp add: scan_inv_def)
      then have len: "\<not> (length (stack_of None opens) = 1 \<and> c = CHR '','')"
        using True comma_plain(1) by auto
      show ?thesis
        unfolding scan_step[OF step len]
        using Cons.IH[OF split scan_inv_close_string[OF inv]] .
    next
      case False
      have split: "top_level_split depth (Some q) (c # seen) (cur @ [c]) cs = Some pieces"
        using Cons.prems(1) Some False by auto
      have step: "stack_step (stack_of quote opens) cur c = Inr (stack_of (Some q) opens)"
        using step_in_string[of depth q seen cur opens c] inv Some False by auto
      have len: "\<not> (length (stack_of (Some q) opens) = 1 \<and> c = CHR '','')"
        by simp
      show ?thesis
        unfolding scan_step[OF step len]
        using Cons.IH[OF split scan_inv_append[OF inv[unfolded Some]]] .
    qed
  next
    case None
    note inv' = inv[unfolded None]
    note st = step_outside[OF inv', of c]
    show ?thesis
    proof (cases "is_quote c")
      case True
      have split: "top_level_split depth (Some c) (c # seen) (cur @ [c]) cs = Some pieces"
        using Cons.prems(1) None True by simp
      have step: "stack_step (stack_of quote opens) cur c = Inr (stack_of (Some c) opens)"
        using st True None by simp
      have len: "\<not> (length (stack_of (Some c) opens) = 1 \<and> c = CHR '','')"
        by simp
      show ?thesis
        unfolding scan_step[OF step len]
        using Cons.IH[OF split scan_inv_open_string[OF inv' True]] .
    next
      case nq: False
      show ?thesis
      proof (cases "is_open c")
        case True
        have split: "top_level_split (Suc depth) None (c # seen) (cur @ [c]) cs = Some pieces"
          using Cons.prems(1) None nq True by simp
        have step: "stack_step (stack_of quote opens) cur c = Inr (stack_of None (Some c # opens))"
          using st nq True None by simp
        have len: "\<not> (length (stack_of None (Some c # opens)) = 1 \<and> c = CHR '','')"
          by simp
        show ?thesis
          unfolding scan_step[OF step len]
          using Cons.IH[OF split scan_inv_push[OF inv' True]] .
      next
        case no: False
        show ?thesis
        proof (cases "is_close c")
          case True
          obtain d where d: "depth = Suc d"
            and split: "top_level_split d None (c # seen) (cur @ [c]) cs = Some pieces"
            using Cons.prems(1) None nq no True by (cases depth) auto
          have "length opens = Suc d" using inv' d by (simp add: scan_inv_def)
          then obtain x opens' where o: "opens = x # opens'" by (cases opens) auto
          have tl: "tl (stack_of None opens) = stack_of None opens'"
            by (simp add: stack_of_def o)
          have step: "stack_step (stack_of quote opens) cur c = Inr (stack_of None opens')"
            using st nq no True None tl by simp
          have len: "\<not> (length (stack_of None opens') = 1 \<and> c = CHR '','')"
            using True comma_plain(3) by auto
          show ?thesis
            unfolding scan_step[OF step len]
            using Cons.IH[OF split scan_inv_pop[OF inv'[unfolded d o]]] .
        next
          case nc: False
          have step: "stack_step (stack_of quote opens) cur c = Inr (stack_of None opens)"
            using st nq no nc None by simp
          have dl: "length opens = depth" using inv' by (simp add: scan_inv_def)
          show ?thesis
          proof (cases "c = CHR '','' \<and> depth = 0")
            case True
            obtain rest where
              split: "top_level_split depth None (c # seen) [] cs = Some rest"
              and p: "pieces = cur # rest"
              using Cons.prems(1) None nq no nc True by auto
            have l1: "length (stack_of None opens) = 1" using dl True by simp
            have "scan_args (stack_of None opens) [] (arguments @ [strip cur]) cs
                    = Inr ((arguments @ [strip cur]) @ map strip rest)"
              using Cons.IH[OF split scan_inv_comma[OF inv']] .
            then show ?thesis
              unfolding scan_step_comma[OF step l1 True[THEN conjunct1]] p by simp
          next
            case False
            have split: "top_level_split depth None (c # seen) (cur @ [c]) cs = Some pieces"
              using Cons.prems(1) None nq no nc False by auto
            have len: "\<not> (length (stack_of None opens) = 1 \<and> c = CHR '','')"
              using dl False by auto
            show ?thesis
              unfolding scan_step[OF step len]
              using Cons.IH[OF split scan_inv_append[OF inv']] .
          qed
        qed
      qed
    qed
  qed
qed

lemma scan_args_top_level:
  assumes "top_level_split 0 None [] [] s = Some pieces"
  shows "scan_args [None] [] [] s = Inr (map strip pieces)"
proof -
  have "scan_inv 0 None [] [] []" by (simp add: scan_inv_def opens_ok_def)
  from scan_refines[OF assms this, of "[]"] show ?thesis by (simp add: stack_of_def)
qed


text \<open>
  Claim C5. Whenever the argument text has a reading by the spec's words (a split at the
  commas that are outside every container and every quoted string, a quote closing its
  string only after an even number of backslashes), \<open>parse_args\<close> returns and classifies
  exactly the stripped pieces of that split. In particular \<open>f("a,b", x=1)\<close> gives the one
  positional argument \<open>"a,b"\<close>, the keyword argument \<open>(x, 1)\<close> and no capture, and
  \<open>f([1,2,3], y={'a':1})\<close> gives one positional and one keyword argument.
\<close>

theorem parse_args_top_level_commas:
  "(top_level_split 0 None [] [] (isolate_args s) = Some pieces \<longrightarrow>
      parse_args s = Inr (classify (map strip pieces) ([], [], None, None))) \<and>
   parse_args (''f('' @ [CHR 0x22] @ ''a,b'' @ [CHR 0x22] @ '', x=1)'')
     = Inr ([[CHR 0x22] @ ''a,b'' @ [CHR 0x22]], [(''x'', ''1'')], None, None) \<and>
   parse_args (''f([1,2,3], y={'' @ [CHR 0x27] @ ''a'' @ [CHR 0x27] @ '':1})'')
     = Inr ([''[1,2,3]''], [(''y'', ''{'' @ [CHR 0x27] @ ''a'' @ [CHR 0x27] @ '':1}'')], None, None)"
proof (intro conjI impI)
  assume "top_level_split 0 None [] [] (isolate_args s) = Some pieces"
  then show "parse_args s = Inr (classify (map strip pieces) ([], [], None, None))"
    by (simp add: parse_args_def scan_args_top_level)
next
  show "parse_args (''f('' @ [CHR 0x22] @ ''a,b'' @ [CHR 0x22] @ '', x=1)'')
     = Inr ([[CHR 0x22] @ ''a,b'' @ [CHR 0x22]], [(''x'', ''1'')], None, None)"
    by code_simp
next
  show "parse_args (''f([1,2,3], y={'' @ [CHR 0x27] @ ''a'' @ [CHR 0x27] @ '':1})'')
     = Inr ([''[1,2,3]''], [(''y'', ''{'' @ [CHR 0x27] @ ''a'' @ [CHR 0x27] @ '':1}'')], None, None)"
    by code_simp
qed

theorem parse_args_top_level_commas_witness:
  "top_level_split 0 None [] [] (isolate_args (''g(a[1,2], '' @ [CHR 0x22] @ ''b,'' @ [CHR 0x5C, CHR 0x22] @ ''c'' @ [CHR 0x22] @ '', *r)''))
     = Some [''a[1,2]'', '' '' @ [CHR 0x22] @ ''b,'' @ [CHR 0x5C, CHR 0x22] @ ''c'' @ [CHR 0x22], '' *r''] \<and>
   parse_args (''g(a[1,2], '' @ [CHR 0x22] @ ''b,'' @ [CHR 0x5C, CHR 0x22] @ ''c'' @ [CHR 0x22] @ '', *r)'')
     = Inr ([''a[1,2]'', [CHR 0x22] @ ''b,'' @ [CHR 0x5C, CHR 0x22] @ ''c'' @ [CHR 0x22]], [], Some ''r'', None)"
proof -
  let ?s = "''g(a[1,2], '' @ [CHR 0x22] @ ''b,'' @ [CHR 0x5C, CHR 0x22] @ ''c'' @ [CHR 0x22] @ '', *r)''"
  let ?p = "[''a[1,2]'', '' '' @ [CHR 0x22] @ ''b,'' @ [CHR 0x5C, CHR 0x22] @ ''c'' @ [CHR 0x22], '' *r'']"
  have t: "top_level_split 0 None [] [] (isolate_args ?s) = Some ?p"
    by code_simp
  have c: "classify (map strip ?p) ([], [], None, None)
     = ([''a[1,2]'', [CHR 0x22] @ ''b,'' @ [CHR 0x5C, CHR 0x22] @ ''c'' @ [CHR 0x22]], [], Some ''r'', None)"
    by code_simp
  from parse_args_top_level_commas[of ?s ?p] t
  have "parse_args ?s = Inr (classify (map strip ?p) ([], [], None, None))" by blast
  with t c show ?thesis by simp
qed

section \<open>The escape hatch \<open>print_python\<close>\<close>

lemma lstrip_Nil_iff: "lstrip s = [] \<longleftrightarrow> (\<forall>c\<in>set s. is_space c)"
  by (simp add: lstrip_def dropWhile_eq_Nil_conv)

lemma strip_Nil_iff: "strip s = [] \<longleftrightarrow> (\<forall>c\<in>set s. is_space c)"
proof
  assume "strip s = []"
  then have a: "\<forall>c\<in>set (dropWhile is_space s). is_space c"
    by (simp add: strip_def rstrip_def lstrip_def dropWhile_eq_Nil_conv)
  show "\<forall>c\<in>set s. is_space c"
  proof (cases "dropWhile is_space s")
    case Nil
    then show ?thesis by (simp add: dropWhile_eq_Nil_conv)
  next
    case (Cons x xs)
    then have "\<not> is_space x" using hd_dropWhile[of is_space s] by auto
    with a Cons show ?thesis by simp
  qed
next
  assume "\<forall>c\<in>set s. is_space c"
  then show "strip s = []"
    by (auto simp: strip_def rstrip_def lstrip_def dest: set_dropWhileD)
qed

lemma linebreak_is_space: "is_linebreak c \<Longrightarrow> is_space c"
  by (auto simp: is_linebreak_def is_space_def)

lemma splitlines_acc_covers:
  "set cur \<union> {c \<in> set s. \<not> is_linebreak c} \<subseteq> set (concat (splitlines_acc cur s))"
proof (induction cur s rule: splitlines_acc.induct)
  case (1 cur)
  then show ?case by simp
next
  case (2 cur c cs)
  show ?case
  proof (cases "c = CHR 0x0D \<and> cs \<noteq> [] \<and> hd cs = CHR 0x0A")
    case True
    then obtain r where cs: "cs = CHR 0x0A # r" by (cases cs) auto
    have "is_linebreak c" "is_linebreak (CHR 0x0A)" using True by (auto simp: is_linebreak_def)
    then show ?thesis using 2(1)[OF True] True cs by auto
  next
    case False
    show ?thesis
    proof (cases "is_linebreak c")
      case True
      then show ?thesis using 2(2)[OF False True] False by auto
    next
      case nl: False
      then show ?thesis using 2(3)[OF False nl] False by auto
    qed
  qed
qed

lemma splitlines_nonblank:
  assumes "strip code \<noteq> []"
  shows "\<exists>line \<in> set (splitlines code). strip line \<noteq> []"
proof -
  from assms obtain c where c: "c \<in> set code" "\<not> is_space c"
    by (auto simp: strip_Nil_iff)
  then have "\<not> is_linebreak c" using linebreak_is_space by blast
  with c(1) have "c \<in> set (concat (splitlines code))"
    using splitlines_acc_covers[of "[]" code] by (auto simp: splitlines_def)
  then obtain line where "line \<in> set (splitlines code)" "c \<in> set line" by auto
  with c(2) show ?thesis by (auto simp: strip_Nil_iff)
qed

lemma find_nonblank:
  assumes "strip code \<noteq> []"
  shows "\<exists>first. find (\<lambda>line. strip line \<noteq> []) (splitlines code) = Some first"
  using splitlines_nonblank[OF assms]
  by (cases "find (\<lambda>line. strip line \<noteq> []) (splitlines code)") (auto simp: find_None_iff)

lemma write_lines_out:
  "write_lines k lines st =
     st\<lparr>out := out st @ concat (map (\<lambda>line. [EvIndent (indent_level st), EvWrite (drop k line)]) lines)\<rparr>"
  by (induction lines arbitrary: st) (simp_all add: indent_def write_text_def)

lemma indent_of_takeWhile: "indent_of line = length (takeWhile is_space line)"
proof -
  have "length line = length (takeWhile is_space line) + length (dropWhile is_space line)"
    by (metis length_append takeWhile_dropWhile_id)
  then show ?thesis by (simp add: indent_of_def lstrip_def)
qed

lemma drop_within_indent:
  assumes "k \<le> indent_of line"
  shows "indent_of (drop k line) = indent_of line - k \<and> lstrip (drop k line) = lstrip line"
proof -
  let ?w = "takeWhile is_space line" and ?r = "dropWhile is_space line"
  have k: "k \<le> length ?w" using assms by (simp add: indent_of_takeWhile)
  have d: "drop k line = drop k ?w @ ?r"
    using k by (metis drop_append diff_is_0_eq drop0 takeWhile_dropWhile_id)
  have sp: "\<forall>c \<in> set (drop k ?w). is_space c"
    by (meson in_set_dropD set_takeWhileD)
  have r: "?r = [] \<or> \<not> is_space (hd ?r)" using hd_dropWhile[of is_space line] by blast
  have tw0: "takeWhile is_space ?r = []"
  proof (cases ?r)
    case Nil
    then show ?thesis by (simp only: takeWhile.simps)
  next
    case (Cons x xs)
    then have "\<not> is_space x" using hd_dropWhile[of is_space line] by (metis list.sel(1) list.distinct(1))
    then show ?thesis by (simp only: Cons takeWhile.simps if_False)
  qed
  have tw: "takeWhile is_space (drop k ?w @ ?r) = drop k ?w"
    using sp by (simp only: takeWhile_append2 tw0 append_Nil2)
  have dw: "dropWhile is_space (drop k ?w @ ?r) = ?r"
    using sp by (simp only: dropWhile_append2 dropWhile_idem)
  show ?thesis
    unfolding indent_of_takeWhile lstrip_def d tw dw by simp
qed


lemma find_filter: "find P xs = Some x \<Longrightarrow> \<exists>ys. filter P xs = x # ys \<and> set ys \<subseteq> {y \<in> set xs. P y}"
  by (induction xs) (auto split: if_splits)

lemma fold_min_lower:
  "\<forall>x \<in> set xs. m \<le> f x \<Longrightarrow> fold (\<lambda>x a. min (f x) a) xs (m::nat) = m"
  by (induction xs) (auto simp: min_def)

lemma min_indent_first:
  assumes "find (\<lambda>line. strip line \<noteq> []) lines = Some first"
    and "\<forall>line \<in> set lines. strip line \<noteq> [] \<longrightarrow> indent_of first \<le> indent_of line"
  shows "min_indent lines = indent_of first"
proof -
  from find_filter[OF assms(1)] obtain ys where
    ys: "filter (\<lambda>line. strip line \<noteq> []) lines = first # ys"
        "set ys \<subseteq> {y \<in> set lines. strip y \<noteq> []}" by blast
  have "\<forall>x \<in> set ys. indent_of first \<le> indent_of x" using ys(2) assms(2) by auto
  then show ?thesis
    unfolding min_indent_def ys(1) by (simp add: fold_min_lower)
qed

text \<open>
  Claim C6, as the code has it. When the stripped body holds no newline, \<open>print_python\<close>
  makes one \<open>indent()\<close> call and writes the single line \<open>$ <body stripped>\<close>. Otherwise
  the body has a first line that is not blank; \<open>print_python\<close> writes \<open>python:\<close> and then,
  one level deeper, every line of the body without its first \<open>k\<close> characters, where \<open>k\<close> is
  the indentation of that first non-blank line. A line indented by at least \<open>k\<close> loses
  exactly \<open>k\<close> characters of indentation and keeps its content, so the indentation of such
  lines relative to each other is kept; and when no non-blank line is indented less than
  the first one, \<open>k\<close> is the minimum indentation of the block.
\<close>

theorem print_python_emits:
  "(CHR 0x0A \<notin> set (strip code) \<longrightarrow>
      print_python header code st =
        Inr (st\<lparr>out := out st @ [EvIndent (indent_level st), EvWrite (''$ '' @ strip code)]\<rparr>)) \<and>
   (CHR 0x0A \<in> set (strip code) \<longrightarrow>
      (\<exists>first. find (\<lambda>line. strip line \<noteq> []) (splitlines code) = Some first \<and>
         print_python header code st =
           Inr (st\<lparr>out := out st @ [EvIndent (indent_level st), EvWrite ''python:''] @
                  concat (map (\<lambda>line. [EvIndent (indent_level st + 1),
                                         EvWrite (drop (indent_of first) line)])
                              (splitlines code))\<rparr>) \<and>
         (\<forall>line. indent_of first \<le> indent_of line \<longrightarrow>
            indent_of (drop (indent_of first) line) = indent_of line - indent_of first \<and>
            lstrip (drop (indent_of first) line) = lstrip line) \<and>
         ((\<forall>line \<in> set (splitlines code). strip line \<noteq> [] \<longrightarrow> indent_of first \<le> indent_of line) \<longrightarrow>
            indent_of first = min_indent (splitlines code))))"
proof (intro conjI impI)
  assume "CHR 0x0A \<notin> set (strip code)"
  then show "print_python header code st =
        Inr (st\<lparr>out := out st @ [EvIndent (indent_level st), EvWrite (''$ '' @ strip code)]\<rparr>)"
    by (simp add: print_python_def indent_def write_text_def)
next
  assume nl: "CHR 0x0A \<in> set (strip code)"
  then have "strip code \<noteq> []" by auto
  from find_nonblank[OF this] obtain first where
    f: "find (\<lambda>line. strip line \<noteq> []) (splitlines code) = Some first" by blast
  have p: "print_python header code st =
           Inr (st\<lparr>out := out st @ [EvIndent (indent_level st), EvWrite ''python:''] @
                  concat (map (\<lambda>line. [EvIndent (indent_level st + 1),
                                         EvWrite (drop (indent_of first) line)])
                              (splitlines code))\<rparr>)"
    using nl f
    by (simp add: print_python_def Let_def write_lines_out indent_def write_text_def shift_def)
  have m: "(\<forall>line \<in> set (splitlines code). strip line \<noteq> [] \<longrightarrow> indent_of first \<le> indent_of line) \<longrightarrow>
            indent_of first = min_indent (splitlines code)"
    using min_indent_first[OF f] by auto
  show "\<exists>first. find (\<lambda>line. strip line \<noteq> []) (splitlines code) = Some first \<and>
         print_python header code st =
           Inr (st\<lparr>out := out st @ [EvIndent (indent_level st), EvWrite ''python:''] @
                  concat (map (\<lambda>line. [EvIndent (indent_level st + 1),
                                         EvWrite (drop (indent_of first) line)])
                              (splitlines code))\<rparr>) \<and>
         (\<forall>line. indent_of first \<le> indent_of line \<longrightarrow>
            indent_of (drop (indent_of first) line) = indent_of line - indent_of first \<and>
            lstrip (drop (indent_of first) line) = lstrip line) \<and>
         ((\<forall>line \<in> set (splitlines code). strip line \<noteq> [] \<longrightarrow> indent_of first \<le> indent_of line) \<longrightarrow>
            indent_of first = min_indent (splitlines code))"
    using f p m drop_within_indent by blast
qed

text \<open>
  Claim C6 as stated fails: in the body \<open>"  a\\nb"\<close> the first line is indented by two
  and the second by none. The minimum indentation of the block is 0, so removing it would
  leave both lines as they are; \<open>print_python\<close> removes two characters from each line and
  writes \<open>a\<close> and the empty line.
\<close>

theorem print_python_first_line_indent:
  "print_python [] (''  a'' @ [CHR 0x0A] @ ''b'') \<lparr>indent_level = 0, out = []\<rparr> =
     Inr \<lparr>indent_level = 0,
          out = [EvIndent 0, EvWrite ''python:'', EvIndent 1, EvWrite ''a'',
                 EvIndent 1, EvWrite []]\<rparr> \<and>
   dedent_min (splitlines (''  a'' @ [CHR 0x0A] @ ''b'')) = [''  a'', ''b'']"
  by (simp add: print_python_def dedent_min_def min_indent_def splitlines_def strip_def
      rstrip_def lstrip_def indent_of_def is_space_def is_linebreak_def indent_def
      write_text_def shift_def)


theorem print_python_emits_witness:
  "CHR 0x0A \<notin> set (strip '' x = 1 '') \<and>
   print_python [] '' x = 1 '' \<lparr>indent_level = 0, out = []\<rparr> =
     Inr \<lparr>indent_level = 0, out = [EvIndent 0, EvWrite ''$ x = 1'']\<rparr> \<and>
   CHR 0x0A \<in> set (strip ''  a\<newline>   b'') \<and>
   print_python [] ''  a\<newline>   b'' \<lparr>indent_level = 0, out = []\<rparr> =
     Inr \<lparr>indent_level = 0,
          out = [EvIndent 0, EvWrite ''python:'', EvIndent 1, EvWrite ''a'',
                 EvIndent 1, EvWrite '' b'']\<rparr> \<and>
   min_indent (splitlines ''  a\<newline>   b'') = 2"
proof -
  let ?st = "\<lparr>indent_level = 0, out = []\<rparr>"
  let ?c = "''  a\<newline>   b''"
  have s1: "strip '' x = 1 '' = ''x = 1''"
    by (simp add: strip_def rstrip_def lstrip_def is_space_def)
  have a: "CHR 0x0A \<notin> set (strip '' x = 1 '')" unfolding s1 by simp
  have s2: "strip ?c = ''a\<newline>   b''"
    by (simp add: strip_def rstrip_def lstrip_def is_space_def)
  have b: "CHR 0x0A \<in> set (strip ?c)" unfolding s2 by simp
  have l: "splitlines ?c = [''  a'', ''   b'']"
    by (simp add: splitlines_def is_linebreak_def)
  have st: "strip ''  a'' = ''a''" "strip ''   b'' = ''b''"
    by (simp_all add: strip_def rstrip_def lstrip_def is_space_def)
  have i: "indent_of ''  a'' = 2" "indent_of ''   b'' = 3"
    by (simp_all add: indent_of_def lstrip_def is_space_def)
  have f: "find (\<lambda>line. strip line \<noteq> []) (splitlines ?c) = Some ''  a''"
    unfolding l by (simp add: st)
  from print_python_emits[of "'' x = 1 ''" "[]" ?st] a
  have p1: "print_python [] '' x = 1 '' ?st =
     Inr \<lparr>indent_level = 0, out = [EvIndent 0, EvWrite ''$ x = 1'']\<rparr>"
    by (simp add: s1)
  from print_python_emits[of ?c "[]" ?st] b f
  have p2: "print_python [] ?c ?st =
     Inr \<lparr>indent_level = 0,
          out = [EvIndent 0, EvWrite ''python:'', EvIndent 1, EvWrite ''a'',
                 EvIndent 1, EvWrite '' b'']\<rparr>"
    and m: "(\<forall>line \<in> set (splitlines ?c). strip line \<noteq> [] \<longrightarrow> indent_of ''  a'' \<le> indent_of line) \<longrightarrow>
            indent_of ''  a'' = min_indent (splitlines ?c)"
    by (auto simp: l i)
  have "\<forall>line \<in> set (splitlines ?c). strip line \<noteq> [] \<longrightarrow> indent_of ''  a'' \<le> indent_of line"
    unfolding l by (simp add: i)
  with m have "min_indent (splitlines ?c) = 2" using i(1) by simp
  with a b p1 p2 show ?thesis by blast
qed

section \<open>The dispatch registry\<close>

lemma dispatch_overlap_same_handler:
  "\<forall>e1 \<in> set dispatch. \<forall>e2 \<in> set dispatch. startswith (fst e2) (fst e1) \<longrightarrow> snd e1 = snd e2"
  by (simp add: dispatch_def startswith_def)

lemma startswith_both:
  assumes "startswith s a" "startswith s b"
  shows "startswith a b \<or> startswith b a"
proof (cases "length a \<le> length b")
  case True
  have "take (length a) b = take (length a) (take (length b) s)"
    using assms(2) by (simp add: startswith_def)
  also have "\<dots> = take (length a) s" using True by (simp add: min_def)
  also have "\<dots> = a" using assms(1) by (simp add: startswith_def)
  finally show ?thesis by (simp add: startswith_def)
next
  case False
  have "take (length b) a = take (length b) (take (length a) s)"
    using assms(1) by (simp add: startswith_def)
  also have "\<dots> = take (length b) s" using False by (simp add: min_def)
  also have "\<dots> = b" using assms(2) by (simp add: startswith_def)
  finally show ?thesis by (simp add: startswith_def)
qed

lemma matching_entries_agree:
  assumes "e1 \<in> set dispatch" "e2 \<in> set dispatch"
    "startswith s (fst e1)" "startswith s (fst e2)"
  shows "snd e1 = snd e2"
  using startswith_both[OF assms(3,4)] dispatch_overlap_same_handler assms(1,2)
  by metis

lemma find_SomeD: "find P xs = Some x \<Longrightarrow> x \<in> set xs \<and> P x"
  by (induction xs) (auto split: if_splits)

lemma select_handler_order:
  assumes "set items = set dispatch"
  shows "select_handler items code = select_handler dispatch code"
proof -
  let ?P = "\<lambda>(statement, func). startswith (lstrip code) statement"
  show ?thesis
  proof (cases "find ?P items")
    case None
    then have "\<forall>e \<in> set dispatch. \<not> ?P e"
      using assms by (auto simp: find_None_iff)
    then have "find ?P dispatch = None" unfolding find_None_iff by blast
    with None show ?thesis by (simp add: select_handler_def)
  next
    case (Some e1)
    then have e1: "e1 \<in> set dispatch" "?P e1"
      using assms find_SomeD[of ?P items e1] by auto
    then obtain e2 where f2: "find ?P dispatch = Some e2"
      by (cases "find ?P dispatch") (auto simp: find_None_iff)
    then have e2: "e2 \<in> set dispatch" "?P e2"
      using find_SomeD[of ?P dispatch e2] by auto
    have "snd e1 = snd e2"
      using matching_entries_agree[OF e1(1) e2(1)] e1(2) e2(2) by (auto simp: case_prod_beta)
    with Some f2 show ?thesis by (simp add: select_handler_def)
  qed
qed

text \<open>
  Claim C7, as the code has it. Where the key of one entry starts the key of another
  (\<open>ui.text\<close> and \<open>ui.textbutton\<close>, \<open>ui.drag\<close> and \<open>ui.draggroup\<close>), both entries have
  the same handler; so for every order in which the entries of the registry are visited,
  prefix matching selects the same handler as the order of the source.
\<close>

theorem dispatch_order_irrelevant:
  "(\<forall>e1 \<in> set dispatch. \<forall>e2 \<in> set dispatch. startswith (fst e2) (fst e1) \<longrightarrow> snd e1 = snd e2) \<and>
   (set items = set dispatch \<longrightarrow> select_handler items code = select_handler dispatch code)"
  using dispatch_overlap_same_handler select_handler_order by blast

theorem dispatch_order_irrelevant_witness:
  "set (rev dispatch) = set dispatch \<and>
   select_handler (rev dispatch) ''ui.textbutton(a)'' = select_handler dispatch ''ui.textbutton(a)'' \<and>
   select_handler dispatch ''ui.textbutton(a)'' = Some Print_ui"
proof -
  have a: "set (rev dispatch) = set dispatch" by simp
  have b: "select_handler dispatch ''ui.textbutton(a)'' = Some Print_ui"
    by (simp add: select_handler_def dispatch_def startswith_def lstrip_def is_space_def)
  from dispatch_order_irrelevant[of "rev dispatch" "''ui.textbutton(a)''"] a b
  show ?thesis by blast
qed

text \<open>
  Claim C7 as stated fails: the registry is not prefix-free, \<open>ui.text\<close> starts
  \<open>ui.textbutton\<close>.
\<close>

theorem dispatch_not_prefix_free:
  "\<not> prefix_free dispatch"
proof -
  have "(''ui.text'', Print_ui) \<in> set dispatch" "(''ui.textbutton'', Print_ui) \<in> set dispatch"
    by (simp_all add: dispatch_def)
  moreover have "startswith ''ui.textbutton'' ''ui.text''" by (simp add: startswith_def)
  ultimately show ?thesis
    unfolding prefix_free_def by fastforce
qed

section \<open>Indentation across \<open>print_screen\<close>\<close>

lemma screen_preamble_level:
  assumes "screen_preamble E ast st = Inr st5"
  shows "indent_level st5 = indent_level st + 1"
  using assms
  by (auto simp: screen_preamble_def Let_def bindE_Inr_iff split: option.splits if_splits)

text \<open>The exit at the end of \<open>print_screen\<close>, here after the \<open>python:\<close> block, restores the
  counter.\<close>

lemma print_screen_python_block_level:
  assumes "decompile_python E" "\<not> decompile_screencode E" "print_screen pn E ast st = Inr st'"
  shows "indent_level st' = indent_level st"
  using assms
  by (auto simp: print_screen_def Let_def bindE_Inr_iff dest: screen_preamble_level)

text \<open>
  Claim C8 on the early return of \<open>print_screen\<close>: with \<open>decompile_python\<close> off, every
  normal return leaves the indentation counter one above its value on entry.
\<close>

theorem print_screen_early_return:
  assumes "\<not> decompile_python E" "print_screen pn E ast st = Inr st'"
  shows "indent_level st' = indent_level st + 1"
  using assms
  by (auto simp: print_screen_def bindE_Inr_iff dest: screen_preamble_level)

theorem print_screen_early_return_witness:
  "print_screen (\<lambda>h c s. Inr s)
     \<lparr>force_multiline_kwargs = True, comparable = False, decompile_python = False,
      decompile_screencode = True, simple_expression_guard = (\<lambda>s. s),
      word_join = (\<lambda>ws. [])\<rparr>
     \<lparr>ast_name = ''main'', ast_parameters = None, ast_zorder = None, ast_modal = None,
      ast_variant = None, ast_tag = None, ast_code = []\<rparr>
     \<lparr>indent_level = 0, out = []\<rparr>
   = Inr \<lparr>indent_level = 1,
          out = [EvIndent 0, EvWrite ''screen main'', EvWrite '':'', EvIndent 1,
                 EvWrite ''pass # Screen code not extracted'']\<rparr> \<and>
   indent_level \<lparr>indent_level = 1,
          out = [EvIndent 0, EvWrite ''screen main'', EvWrite '':'', EvIndent 1,
                 EvWrite ''pass # Screen code not extracted'']\<rparr> = indent_level \<lparr>indent_level = 0, out = []\<rparr> + 1"
proof -
  let ?E = "\<lparr>force_multiline_kwargs = True, comparable = False, decompile_python = False,
      decompile_screencode = True, simple_expression_guard = (\<lambda>s. s),
      word_join = (\<lambda>ws. [])\<rparr>"
  have e: "print_screen (\<lambda>h c s. Inr s) ?E
     \<lparr>ast_name = ''main'', ast_parameters = None, ast_zorder = None, ast_modal = None,
      ast_variant = None, ast_tag = None, ast_code = []\<rparr>
     \<lparr>indent_level = 0, out = []\<rparr>
   = Inr \<lparr>indent_level = 1,
          out = [EvIndent 0, EvWrite ''screen main'', EvWrite '':'', EvIndent 1,
                 EvWrite ''pass # Screen code not extracted'']\<rparr>"
    by (simp add: print_screen_def screen_preamble_def given_def indent_def write_text_def shift_def)
  have d: "\<not> decompile_python ?E" by simp
  from print_screen_early_return[OF d e] e show ?thesis by simp
qed

section \<open>The use handler \<open>print_use\<close>\<close>

text \<open>
  Claim C9, as the code has it. \<open>print_use\<close> takes the name
  as \<open>args.pop(0)[2:-1]\<close>: it cuts the first two characters and the last one of the first
  positional argument, whatever they are. This removes the quoting exactly when the literal
  has a one-character prefix before its opening quote, as the \<open>unicode\<close> literal \<open>u'name'\<close>
  has. So let the body of a use statement parse to a first positional argument that is
  the screen name as a quoted \<open>unicode\<close> literal (\<open>u\<close>, a quote, the name, the quote),
  further positional arguments \<open>args\<close>, keyword arguments \<open>kwargs0\<close> and the captures
  \<open>exargs\<close> and \<open>exkwargs\<close>. Then \<open>print_use\<close> writes \<open>use <name>\<close> with the bare name;
  the keyword arguments \<open>_scope\<close> and \<open>_name\<close> are dropped before anything is written
  again; and the parenthesized suffix, holding what remains joined by commas, is written if
  and only if a positional argument, a keyword argument or a capture remains (a capture
  remains when its text is not empty, which is Python's truth value of it).
\<close>

theorem print_use_emits:
  assumes "parse_args (strip code) = Inr ((''u'' @ [q] @ name @ [q]) # args, kwargs0, exargs, exkwargs)"
    and "kwargs = filter (\<lambda>(key, v). key \<noteq> ''_scope'' \<and> key \<noteq> ''_name'') kwargs0"
  shows "print_use header code st =
     Inr (st\<lparr>out := out st @ [EvIndent (indent_level st), EvWrite (''use '' @ name)] @
            (if args \<noteq> [] \<or> kwargs \<noteq> [] \<or> given exargs \<or> given exkwargs
             then [EvWrite ''('',
                   EvWrite (join '', '' (args @ map (\<lambda>(key, v). key @ ''='' @ v) kwargs
                       @ (if given exargs then [''*'' @ the exargs] else [])
                       @ (if given exkwargs then [''**'' @ the exkwargs] else []))),
                   EvWrite '')'']
             else [])\<rparr>)"
proof -
  have k: "filter (\<lambda>(key, v). \<not> (key = ''_scope'' \<or> key = ''_name'')) kwargs0 = kwargs"
    unfolding assms(2) by (rule filter_cong) auto
  have n: "butlast (drop 2 (''u'' @ [q] @ name @ [q])) = name"
    by (simp add: butlast_append)
  have u: "use_arglist args kwargs exargs exkwargs =
      args @ map (\<lambda>(key, v). key @ ''='' @ v) kwargs
                       @ (if given exargs then [''*'' @ the exargs] else [])
                       @ (if given exkwargs then [''**'' @ the exkwargs] else [])"
    by (auto simp: use_arglist_def given_def split: option.splits)
  show ?thesis
    unfolding print_use_def assms(1) bindE_simps prod.case Let_def k list.case n u
    by (simp add: indent_def write_text_def)
qed

theorem print_use_emits_witness:
  "parse_args (strip (''renpy.use_screen(u'' @ [CHR 0x27] @ ''foo'' @ [CHR 0x27] @ '', 1, x=2, _name=_3, _scope=_scope)'' @ [CHR 0x0A]))
    = Inr ((''u'' @ [CHR 0x27] @ ''foo'' @ [CHR 0x27]) # [''1''],
           [(''x'', ''2''), (''_name'', ''_3''), (''_scope'', ''_scope'')], None, None) \<and>
   print_use [] (''renpy.use_screen(u'' @ [CHR 0x27] @ ''foo'' @ [CHR 0x27] @ '', 1, x=2, _name=_3, _scope=_scope)'' @ [CHR 0x0A])
      \<lparr>indent_level = 1, out = []\<rparr>
    = Inr \<lparr>indent_level = 1,
           out = [EvIndent 1, EvWrite ''use foo'', EvWrite ''('', EvWrite ''1, x=2'', EvWrite '')'']\<rparr> \<and>
   parse_args (strip (''renpy.use_screen(u'' @ [CHR 0x27] @ ''foo'' @ [CHR 0x27] @ '', _name=_3, _scope=_scope)''))
    = Inr ((''u'' @ [CHR 0x27] @ ''foo'' @ [CHR 0x27]) # [],
           [(''_name'', ''_3''), (''_scope'', ''_scope'')], None, None) \<and>
   print_use [] (''renpy.use_screen(u'' @ [CHR 0x27] @ ''foo'' @ [CHR 0x27] @ '', _name=_3, _scope=_scope)'')
      \<lparr>indent_level = 1, out = []\<rparr>
    = Inr \<lparr>indent_level = 1, out = [EvIndent 1, EvWrite ''use foo'']\<rparr>"
proof -
  have p1: "parse_args (strip (''renpy.use_screen(u'' @ [CHR 0x27] @ ''foo'' @ [CHR 0x27] @ '', 1, x=2, _name=_3, _scope=_scope)'' @ [CHR 0x0A]))
    = Inr ((''u'' @ [CHR 0x27] @ ''foo'' @ [CHR 0x27]) # [''1''],
           [(''x'', ''2''), (''_name'', ''_3''), (''_scope'', ''_scope'')], None, None)"
    by code_simp
  have p2: "parse_args (strip (''renpy.use_screen(u'' @ [CHR 0x27] @ ''foo'' @ [CHR 0x27] @ '', _name=_3, _scope=_scope)''))
    = Inr ((''u'' @ [CHR 0x27] @ ''foo'' @ [CHR 0x27]) # [],
           [(''_name'', ''_3''), (''_scope'', ''_scope'')], None, None)"
    by code_simp
  have u1: "print_use [] (''renpy.use_screen(u'' @ [CHR 0x27] @ ''foo'' @ [CHR 0x27] @ '', 1, x=2, _name=_3, _scope=_scope)'' @ [CHR 0x0A])
      \<lparr>indent_level = 1, out = []\<rparr>
    = Inr \<lparr>indent_level = 1,
           out = [EvIndent 1, EvWrite ''use foo'', EvWrite ''('', EvWrite ''1, x=2'', EvWrite '')'']\<rparr>"
    by (subst print_use_emits[OF p1 refl]) (simp add: given_def)
  have u2: "print_use [] (''renpy.use_screen(u'' @ [CHR 0x27] @ ''foo'' @ [CHR 0x27] @ '', _name=_3, _scope=_scope)'')
      \<lparr>indent_level = 1, out = []\<rparr>
    = Inr \<lparr>indent_level = 1, out = [EvIndent 1, EvWrite ''use foo'']\<rparr>"
    by (subst print_use_emits[OF p2 refl]) (simp add: given_def)
  from p1 p2 u1 u2 show ?thesis by (intro conjI)
qed

text \<open>
  Claim C9 as stated fails on a quoted screen-name literal without the \<open>u\<close> prefix: for the
  body \<open>renpy.use_screen('foo', _name=_3, _scope=_scope)\<close> the first positional argument is
  the literal \<open>'foo'\<close>, and cutting two characters at its front and one at its end gives
  \<open>oo\<close>, so the handler writes \<open>use oo\<close> and not \<open>use foo\<close>.
\<close>

theorem print_use_plain_literal:
  "parse_args (strip (''renpy.use_screen('' @ [CHR 0x27] @ ''foo'' @ [CHR 0x27] @ '', _name=_3, _scope=_scope)''))
    = Inr ([[CHR 0x27] @ ''foo'' @ [CHR 0x27]],
           [(''_name'', ''_3''), (''_scope'', ''_scope'')], None, None) \<and>
   print_use [] (''renpy.use_screen('' @ [CHR 0x27] @ ''foo'' @ [CHR 0x27] @ '', _name=_3, _scope=_scope)'')
      \<lparr>indent_level = 1, out = []\<rparr>
    = Inr \<lparr>indent_level = 1, out = [EvIndent 1, EvWrite ''use oo'']\<rparr> \<and>
   print_use [] (''renpy.use_screen('' @ [CHR 0x27] @ ''foo'' @ [CHR 0x27] @ '', _name=_3, _scope=_scope)'')
      \<lparr>indent_level = 1, out = []\<rparr>
    \<noteq> Inr \<lparr>indent_level = 1, out = [EvIndent 1, EvWrite ''use foo'']\<rparr>"
  by code_simp

section \<open>The Block Splitter on a body built from lines\<close>

lemma expect_app_lit: "expect (a @ b) s = (case expect a s of None \<Rightarrow> None | Some r \<Rightarrow> expect b r)"
  by (induction a s rule: expect.induct) auto

lemma expect_newline:
  "CHR 0x0A \<notin> set lit \<Longrightarrow>
   expect lit (v @ CHR 0x0A # rest) = map_option (\<lambda>r. r @ CHR 0x0A # rest) (expect lit v)"
  by (induction lit v rule: expect.induct) auto

lemma takeWhile_newline:
  "\<not> P (CHR 0x0A) \<Longrightarrow> takeWhile P (v @ CHR 0x0A # rest) = takeWhile P v"
  by (rule takeWhile_tail)

lemma dropWhile_newline:
  "\<not> P (CHR 0x0A) \<Longrightarrow> dropWhile P (v @ CHR 0x0A # rest) = dropWhile P v @ CHR 0x0A # rest"
  by (induction v) auto

lemma opt_underscore_newline:
  "opt_underscore (v @ CHR 0x0A # rest) = opt_underscore v @ CHR 0x0A # rest"
  by (cases v) (auto simp: opt_underscore_def)

lemma newline_not_digit: "\<not> is_digit (CHR 0x0A)"
  by (simp add: is_digit_def)

lemma node_core_newline:
  assumes "CHR 0x0A \<notin> set P"
  shows "node_core P (u @ CHR 0x0A # rest) = map_option (\<lambda>r. r @ CHR 0x0A # rest) (node_core P u)"
proof -
  have lit: "CHR 0x0A \<notin> set ('' = (_'' @ P @ '', '')" using assms by simp
  have l2: "expect (CHR '' '' # CHR ''='' # CHR '' '' # CHR ''('' # CHR ''_'' # P @ '', '') (v @ CHR 0x0A # rest)
      = map_option (\<lambda>r. r @ CHR 0x0A # rest)
          (expect (CHR '' '' # CHR ''='' # CHR '' '' # CHR ''('' # CHR ''_'' # P @ '', '') v)" for v
    using expect_newline[OF lit, of v rest] by simp
  show ?thesis
    unfolding node_core_def
    by (simp add: dropWhile_newline l2 expect_newline[of "''_''"]
        expect_newline[of "'')''"] takeWhile_newline newline_not_digit
        opt_underscore_newline split: option.splits)
qed

lemma node_core_text:
  assumes "digits own" "digits idx"
  shows "node_core P (replicate n CHR '' '' @ header_text own P u idx @ post) = Some post"
proof -
  have ou: "opt_underscore (idx @ r) = idx @ r" for r
    using assms(2) by (cases idx) (auto simp: opt_underscore_def digits_def)
  have ou2: "opt_underscore (CHR ''_'' # r) = r" for r
    by (simp add: opt_underscore_def)
  have d: "\<forall>c\<in>set own. is_digit c" "\<forall>c\<in>set idx. is_digit c" "own \<noteq> []" "idx \<noteq> []"
    using assms by (auto simp: digits_def)
  have e: "expect ('' = (_'' @ P @ '', '') ('' = (_'' @ P @ '', '' @ r) = Some r" for r
    using expect_append[of "'' = (_'' @ P @ '', ''" r] by simp
  have e': "expect ('' = (_'' @ P @ '', '') (CHR '' '' # CHR ''='' # CHR '' '' # CHR ''('' # CHR ''_'' # P @ CHR '','' # CHR '' '' # r) = Some r" for r
    using e[of r] by simp
  have e2: "expect (P @ '', '') (P @ CHR '','' # CHR '' '' # r) = Some r" for r
    using expect_append[of "P @ '', ''" r] by simp
  show ?thesis
    by (cases u) (simp_all add: node_core_def header_text_def dw_spaces ou ou2 d e2)
qed

lemma node_core_shape:
  assumes "node_core P s = Some r"
  shows "\<exists>n own u idx. digits own \<and> digits idx \<and>
           s = replicate n CHR '' '' @ header_text own P u idx @ r"
proof -
  from assms obtain s1 s4 where
    a: "dropWhile (\<lambda>c. c = CHR '' '') s = ''_'' @ s1"
    and own: "takeWhile is_digit s1 \<noteq> []"
    and b: "dropWhile is_digit s1 = ('' = (_'' @ P @ '', '') @ s4"
    and idx: "takeWhile is_digit (opt_underscore s4) \<noteq> []"
    and e: "dropWhile is_digit (opt_underscore s4) = '')'' @ r"
    unfolding node_core_def
    by (auto split: option.splits if_splits simp: expect_Some_iff)
  let ?own = "takeWhile is_digit s1" and ?idx = "takeWhile is_digit (opt_underscore s4)"
  obtain u where u: "s4 = (if u then ''_'' else []) @ opt_underscore s4"
  proof (cases "\<exists>r. s4 = CHR ''_'' # r")
    case True
    then have "s4 = (if True then ''_'' else []) @ opt_underscore s4"
      by (auto simp: opt_underscore_def)
    then show ?thesis using that by blast
  next
    case False
    then have "s4 = (if False then ''_'' else []) @ opt_underscore s4"
      by (cases s4) (auto simp: opt_underscore_def)
    then show ?thesis using that by blast
  qed
  have s1: "s1 = ?own @ ('' = (_'' @ P @ '', '') @ s4"
    using b takeWhile_dropWhile_id[of is_digit s1] by simp
  have o4: "opt_underscore s4 = ?idx @ '')'' @ r"
    using e takeWhile_dropWhile_id[of is_digit "opt_underscore s4"] by simp
  have sp: "takeWhile (\<lambda>c. c = CHR '' '') s = replicate (length (takeWhile (\<lambda>c. c = CHR '' '') s)) CHR '' ''"
    by (rule replicate_length_same[symmetric]) (auto dest: set_takeWhileD)
  have s: "s = takeWhile (\<lambda>c. c = CHR '' '') s @ ''_'' @ s1"
    using a takeWhile_dropWhile_id[of "\<lambda>c. c = CHR '' ''" s] by simp
  have "s = takeWhile (\<lambda>c. c = CHR '' '') s @ header_text ?own P u ?idx @ r"
    apply (subst s) apply (subst s1) 
    apply (subst u) apply (subst o4) apply (simp add: header_text_def)
    done
  then have "s = replicate (length (takeWhile (\<lambda>c. c = CHR '' '') s)) CHR '' '' @ header_text ?own P u ?idx @ r"
    using sp by simp
  moreover have "digits ?own" "digits ?idx"
    using own idx by (auto simp: digits_def dest: set_takeWhileD)
  ultimately show ?thesis by blast
qed

lemma node_core_contains: "node_core P s = Some r \<Longrightarrow> contains_header P s"
  using node_core_shape[of P s r] unfolding contains_header_def by blast

lemma contains_header_drop: "contains_header P (drop k t) \<Longrightarrow> contains_header P t"
proof -
  assume "contains_header P (drop k t)"
  then obtain pre own u idx post where
    h: "digits own" "digits idx" "drop k t = pre @ header_text own P u idx @ post"
    unfolding contains_header_def by blast
  have "t = (take k t @ pre) @ header_text own P u idx @ post"
    using h(3) append_take_drop_id[of k t] by simp
  with h(1,2) show ?thesis unfolding contains_header_def by blast
qed

lemma contains_header_occurs:
  assumes "contains_header P t"
  shows "\<exists>k \<le> length t. node_core P (drop k t) \<noteq> None"
proof -
  from assms obtain pre own u idx post where
    h: "digits own" "digits idx" "t = pre @ header_text own P u idx @ post"
    unfolding contains_header_def by blast
  have "node_core P (drop (length pre) t) = Some post"
    using node_core_text[OF h(1,2), of P 0 u post] h(3) by simp
  moreover have "length pre \<le> length t" using h(3) by simp
  ultimately show ?thesis by force
qed


lemma digits_no_newline: "digits d \<Longrightarrow> CHR 0x0A \<notin> set d"
  using newline_not_digit by (auto simp: digits_def)

lemma header_text_no_newline:
  assumes "digits own" "digits idx" "CHR 0x0A \<notin> set P"
  shows "CHR 0x0A \<notin> set (header_text own P u idx)"
  using assms digits_no_newline by (auto simp: header_text_def)

lemma render_hdr_no_newline:
  assumes "digits own" "digits idx" "CHR 0x0A \<notin> set P"
  shows "CHR 0x0A \<notin> set (render P (Hdr sp1 own u idx sp2))"
  using header_text_no_newline[OF assms] by auto

lemma dropWhile_spaces_newline:
  "dropWhile (\<lambda>c. c = CHR '' '') (replicate n CHR '' '' @ CHR 0x0A # rest) = CHR 0x0A # rest"
  by (induction n) auto

lemma dropWhile_spaces_only:
  "dropWhile (\<lambda>c. c = CHR '' '') (replicate n CHR '' '') = []"
  by (induction n) auto

lemma node_match_hdr_newline:
  assumes "digits own" "digits idx"
  shows "node_match P (render P (Hdr sp1 own u idx sp2) @ CHR 0x0A # rest)
           = Some (render P (Hdr sp1 own u idx sp2) @ [CHR 0x0A], rest)"
proof -
  have c: "node_core P (render P (Hdr sp1 own u idx sp2) @ CHR 0x0A # rest)
             = Some (replicate sp2 CHR '' '' @ CHR 0x0A # rest)"
    using node_core_text[OF assms, of P sp1 u "replicate sp2 CHR '' '' @ CHR 0x0A # rest"] by simp
  have r: "node_rest P (render P (Hdr sp1 own u idx sp2) @ CHR 0x0A # rest) = Some rest"
    unfolding node_rest_def c by (simp add: dropWhile_spaces_newline opt_newline_def)
  have "take (length (render P (Hdr sp1 own u idx sp2) @ CHR 0x0A # rest) - length rest)
          (render P (Hdr sp1 own u idx sp2) @ CHR 0x0A # rest)
        = render P (Hdr sp1 own u idx sp2) @ [CHR 0x0A]"
    by simp
  then show ?thesis unfolding node_match_def r by simp
qed

lemma node_match_hdr_last:
  assumes "digits own" "digits idx"
  shows "node_match P (render P (Hdr sp1 own u idx sp2)) = Some (render P (Hdr sp1 own u idx sp2), [])"
proof -
  have c: "node_core P (render P (Hdr sp1 own u idx sp2)) = Some (replicate sp2 CHR '' '')"
    using node_core_text[OF assms, of P sp1 u "replicate sp2 CHR '' ''"] by simp
  have r: "node_rest P (render P (Hdr sp1 own u idx sp2)) = Some []"
    unfolding node_rest_def c by (simp add: dropWhile_spaces_only opt_newline_def)
  show ?thesis unfolding node_match_def r by simp
qed

lemma node_match_txt:
  assumes "\<not> contains_header P t" "CHR 0x0A \<notin> set P"
  shows "node_match P (drop k t @ CHR 0x0A # rest) = None" "node_match P (drop k t) = None"
proof -
  have n: "node_core P (drop k t) = None"
  proof (cases "node_core P (drop k t)")
    case (Some r)
    then have "contains_header P t"
      using node_core_contains contains_header_drop by blast
    with assms(1) show ?thesis by simp
  qed simp
  show "node_match P (drop k t) = None"
    by (simp add: node_match_def node_rest_def n)
  show "node_match P (drop k t @ CHR 0x0A # rest) = None"
    by (simp add: node_match_def node_rest_def node_core_newline[OF assms(2)] n)
qed

lemma re_split_unfold:
  assumes "s \<noteq> []"
  shows "re_split P s =
     (case node_match P s of
        Some (m, rest) \<Rightarrow> (case re_split P rest of (g, nodes) \<Rightarrow> ([], (m, g) # nodes))
      | None \<Rightarrow> (case re_split P (tl s) of (g, nodes) \<Rightarrow> (hd s # g, nodes)))"
proof -
  from assms obtain a list where s: "s = a # list" by (cases s) auto
  show ?thesis unfolding s by (simp only: re_split.simps list.sel)
qed

lemma re_split_skip:
  assumes "\<forall>k. node_match P (drop k t @ rest) = None"
  shows "re_split P (t @ rest) = (case re_split P rest of (g, nodes) \<Rightarrow> (t @ g, nodes))"
  using assms
proof (induction t)
  case Nil
  then show ?case by (simp split: prod.splits)
next
  case (Cons c t)
  have 0: "node_match P ((c # t) @ rest) = None" using Cons.prems[rule_format, of 0] by simp
  have "\<forall>k. node_match P (drop k t @ rest) = None"
  proof
    fix k show "node_match P (drop k t @ rest) = None"
      using Cons.prems[rule_format, of "Suc k"] by simp
  qed
  from Cons.IH[OF this] 0 show ?case by (simp split: prod.splits)
qed

lemma node_match_at_newline: "node_match P (CHR 0x0A # rest) = None"
  by (simp add: node_match_def node_rest_def node_core_def)

lemma re_split_txt_newline:
  assumes "\<not> contains_header P t" "CHR 0x0A \<notin> set P"
  shows "re_split P (t @ CHR 0x0A # rest) = (case re_split P rest of (g, nodes) \<Rightarrow> (t @ CHR 0x0A # g, nodes))"
proof -
  have a: "\<forall>k. node_match P (drop k t @ CHR 0x0A # rest) = None"
    using node_match_txt(1)[OF assms] by blast
  have "re_split P (CHR 0x0A # rest) = (case re_split P rest of (g, nodes) \<Rightarrow> (CHR 0x0A # g, nodes))"
    by (simp add: node_match_at_newline)
  with re_split_skip[OF a] show ?thesis by (simp split: prod.splits)
qed

lemma re_split_txt_last:
  assumes "\<not> contains_header P t" "CHR 0x0A \<notin> set P"
  shows "re_split P t = (t, [])"
proof -
  have a: "\<forall>k. node_match P (drop k t @ []) = None"
    using node_match_txt(2)[OF assms] by simp
  from re_split_skip[OF a] show ?thesis by simp
qed

lemma re_split_hdr_newline:
  assumes "digits own" "digits idx"
  shows "re_split P (render P (Hdr sp1 own u idx sp2) @ CHR 0x0A # rest)
     = (case re_split P rest of (g, nodes) \<Rightarrow>
          ([], (render P (Hdr sp1 own u idx sp2) @ [CHR 0x0A], g) # nodes))"
proof -
  have ne: "render P (Hdr sp1 own u idx sp2) @ CHR 0x0A # rest \<noteq> []" by simp
  show ?thesis
    unfolding re_split_unfold[OF ne] node_match_hdr_newline[OF assms]
    by (simp only: option.case prod.case)
qed

lemma re_split_hdr_last:
  assumes "digits own" "digits idx"
  shows "re_split P (render P (Hdr sp1 own u idx sp2)) = ([], [(render P (Hdr sp1 own u idx sp2), [])])"
proof -
  have ne: "render P (Hdr sp1 own u idx sp2) \<noteq> []" by (simp add: header_text_def)
  show ?thesis
    unfolding re_split_unfold[OF ne] node_match_hdr_last[OF assms]
    by (simp only: option.case prod.case re_split.simps)
qed

lemma text_of_Cons2: "text_of P (l # l' # ls) = render P l @ CHR 0x0A # text_of P (l' # ls)"
  by (simp add: text_of_def)

lemma re_split_lines:
  assumes "\<forall>l \<in> set lines. wf_line P l" "CHR 0x0A \<notin> set P"
  shows "re_split P (text_of P lines) = lines_split P lines"
  using assms
proof (induction P lines rule: lines_split.induct)
  case (1 P)
  then show ?case by (simp add: text_of_def)
next
  case (2 P t)
  then have "\<not> contains_header P t" "CHR 0x0A \<notin> set P" by simp_all
  from re_split_txt_last[OF this] show ?case by (simp add: text_of_def)
next
  case (3 P sp1 own u idx sp2)
  then have d: "digits own" "digits idx" by simp_all
  from re_split_hdr_last[OF d, of P sp1 u sp2] show ?case
    by (simp only: text_of_def list.map join.simps lines_split.simps)
next
  case (4 P t l ls)
  then have ih: "re_split P (text_of P (l # ls)) = lines_split P (l # ls)" by simp
  have "\<not> contains_header P t" "CHR 0x0A \<notin> set P" using 4(2,3) by simp_all
  from re_split_txt_newline[OF this, of "text_of P (l # ls)"] ih
  show ?case by (simp add: text_of_Cons2)
next
  case (5 P sp1 own u idx sp2 l ls)
  then have ih: "re_split P (text_of P (l # ls)) = lines_split P (l # ls)" by simp
  have d: "digits own" "digits idx" using 5(2) by simp_all
  from re_split_hdr_newline[OF d, of P sp1 u sp2 "text_of P (l # ls)"] ih
  show ?case by (simp only: text_of_Cons2 lines_split.simps)
qed


lemma lines_split_length: "length (snd (lines_split P ls)) = length (filter is_hdr ls)"
proof (induction P ls rule: lines_split.induct)
  case (4 P t l ls)
  then show ?case by (cases "lines_split P (l # ls)") simp
next
  case (5 P sp1 own u idx sp2 l ls)
  then show ?case by (cases "lines_split P (l # ls)") simp
qed simp_all

lemma lines_split_concat:
  "fst (lines_split P ls) @ concat (map (\<lambda>(h, b). h @ b) (snd (lines_split P ls))) = text_of P ls"
proof (induction P ls rule: lines_split.induct)
  case (4 P t l ls)
  then show ?case by (cases "lines_split P (l # ls)") (simp add: text_of_Cons2)
next
  case (5 P sp1 own u idx sp2 l ls)
  then show ?case by (cases "lines_split P (l # ls)") (simp add: text_of_Cons2)
qed (simp_all add: text_of_def)

lemma lines_split_hdr_first: "fst (lines_split P (Hdr sp1 own u idx sp2 # ls)) = []"
proof (cases ls)
  case (Cons l ls')
  then show ?thesis by (cases "lines_split P (l # ls')") simp
qed simp

lemma space_is_space: "\<forall>c \<in> set (replicate n CHR '' ''). is_space c"
  by (simp add: is_space_def)

lemma parse_header_render:
  assumes "digits own" "digits idx" "digits P \<or> P = ''name''"
  shows "parse_header (render P (Hdr sp1 own u idx sp2) @ post) = Some (own, P, idx)"
  using parse_header_text[OF assms(1,3,2) space_is_space, of sp1 u "replicate sp2 CHR '' '' @ post"]
  by simp

lemma lines_split_ids:
  assumes "\<forall>l \<in> set ls. wf_line P l" "digits P \<or> P = ''name''"
  shows "map (\<lambda>(h, b). parse_header h) (snd (lines_split P ls)) = map (hdr_ids P) (filter is_hdr ls)"
  using assms
proof (induction P ls rule: lines_split.induct)
  case (1 P)
  then show ?case by simp
next
  case (2 P t)
  then show ?case by simp
next
  case (3 P sp1 own u idx sp2)
  then show ?case using parse_header_render[of own idx P sp1 u sp2 "[]"] by simp
next
  case (4 P t l ls)
  then have "map (\<lambda>(h, b). parse_header h) (snd (lines_split P (l # ls))) = map (hdr_ids P) (filter is_hdr (l # ls))"
    by simp
  then show ?case by (cases "lines_split P (l # ls)") simp
next
  case (5 P sp1 own u idx sp2 l ls)
  then have ih: "map (\<lambda>(h, b). parse_header h) (snd (lines_split P (l # ls))) = map (hdr_ids P) (filter is_hdr (l # ls))"
    by simp
  have "parse_header (render P (Hdr sp1 own u idx sp2) @ [CHR 0x0A]) = Some (own, P, idx)"
    using parse_header_render[of own idx P sp1 u sp2 "[CHR 0x0A]"] 5(2,3) by simp
  with ih show ?case by (cases "lines_split P (l # ls)") simp
qed

lemma parent_no_newline: "digits P \<or> P = ''name'' \<Longrightarrow> CHR 0x0A \<notin> set P"
  using digits_no_newline by auto

lemma takeWhile_first_line:
  "CHR 0x0A \<notin> set h \<Longrightarrow> takeWhile (\<lambda>c. c \<noteq> CHR 0x0A) (h @ CHR 0x0A # r) = h"
  by (induction h) auto

lemma child_nodes_lines:
  assumes "digits P \<or> P = ''name''"
    and "\<forall>l \<in> set lines. wf_line P l"
    and "lines = Hdr sp1 own u idx sp2 # l # ls"
  shows "child_nodes (text_of P lines) = Inr (snd (lines_split P lines))"
    and "CHR 0x0A \<in> set (text_of P lines)"
proof -
  let ?h = "render P (Hdr sp1 own u idx sp2)"
  have d: "digits own" "digits idx" using assms(2,3) by simp_all
  have nlP: "CHR 0x0A \<notin> set P" using parent_no_newline[OF assms(1)] .
  have nh: "CHR 0x0A \<notin> set ?h" using render_hdr_no_newline[OF d nlP] .
  have t: "text_of P lines = ?h @ CHR 0x0A # text_of P (l # ls)"
    unfolding assms(3) by (rule text_of_Cons2)
  show nl: "CHR 0x0A \<in> set (text_of P lines)" unfolding t by simp
  have tw: "takeWhile (\<lambda>c. c \<noteq> CHR 0x0A) (text_of P lines) = ?h"
    unfolding t using nh by (rule takeWhile_first_line)
  have ph: "parse_header ?h = Some (own, P, idx)"
    using parse_header_render[OF d assms(1), of sp1 u sp2 "[]"] by simp
  have rs: "re_split P (text_of P lines) = lines_split P lines"
    using re_split_lines[OF assms(2) nlP] .
  show "child_nodes (text_of P lines) = Inr (snd (lines_split P lines))"
    unfolding child_nodes_def split_nl1_def using nl by (simp add: tw ph rs del: render.simps)
qed

text \<open>
  Claim C1, as the code has it. Take a body of at least two lines, joined by newlines, whose
  first line is a header naming the parent \<open>P\<close>, and where every line is either such a
  sibling header (with spaces around it) or a line of text in which no header naming \<open>P\<close>
  occurs. Then \<open>print_nodes\<close> visits exactly one (header, body) record for each header line:
  the records are the header lines, each with the text lines that follow it; their headers
  parse to the ids of the header lines in the order of the text, whatever the numbers are;
  and the headers and bodies concatenated in that order are the input text.
\<close>

theorem print_nodes_line_body:
  assumes "digits P \<or> P = ''name''"
    and "\<forall>l \<in> set lines. wf_line P l"
    and "lines = Hdr sp1 own u idx sp2 # l # ls"
  shows "\<exists>nodes. nodes = snd (lines_split P lines) \<and>
           child_nodes (text_of P lines) = Inr nodes \<and>
           (\<forall>pn extra_indent st.
              print_nodes pn (text_of P lines) extra_indent st =
                bindE (print_node_list pn nodes (shift extra_indent st))
                      (\<lambda>st'. Inr (shift (- extra_indent) st'))) \<and>
           length nodes = length (filter is_hdr lines) \<and>
           map (\<lambda>(h, b). parse_header h) nodes = map (hdr_ids P) (filter is_hdr lines) \<and>
           concat (map (\<lambda>(h, b). h @ b) nodes) = text_of P lines"
proof -
  note c = child_nodes_lines[OF assms]
  have "fst (lines_split P lines) = []" unfolding assms(3) by (rule lines_split_hdr_first)
  then have cc: "concat (map (\<lambda>(h, b). h @ b) (snd (lines_split P lines))) = text_of P lines"
    using lines_split_concat[of P lines] by simp
  have pn: "print_nodes pn (text_of P lines) extra_indent st =
                bindE (print_node_list pn (snd (lines_split P lines)) (shift extra_indent st))
                      (\<lambda>st'. Inr (shift (- extra_indent) st'))" for pn extra_indent st
    unfolding print_nodes_def using c by simp
  show ?thesis
    using c(1) pn lines_split_length[of P lines] lines_split_ids[OF assms(2,1)] cc by blast
qed


lemma no_header_check:
  assumes "list_all (\<lambda>k. node_core P (drop k t) = None) [0..<Suc (length t)]"
  shows "\<not> contains_header P t"
proof
  assume "contains_header P t"
  from contains_header_occurs[OF this] obtain k where
    k: "k \<le> length t" "node_core P (drop k t) \<noteq> None" by blast
  have "k \<in> set [0..<Suc (length t)]" using k(1) by (simp only: set_upt atLeastLessThan_iff) arith
  with assms have "node_core P (drop k t) = None"
    unfolding list_all_iff by blast
  with k(2) show False by simp
qed

theorem print_nodes_line_body_witness:
  "child_nodes (text_of ''3'' [Hdr 0 ''12'' False ''0'' 0, Txt ''ui.text(a)'',
                               Hdr 2 ''5'' True ''1'' 1, Txt ''ui.null()''])
     = Inr [(''_12 = (_3, 0)\<newline>'', ''ui.text(a)\<newline>''),
            (''  _5 = (_3, _1) \<newline>'', ''ui.null()'')] \<and>
   text_of ''3'' [Hdr 0 ''12'' False ''0'' 0, Txt ''ui.text(a)'',
                  Hdr 2 ''5'' True ''1'' 1, Txt ''ui.null()'']
     = ''_12 = (_3, 0)\<newline>ui.text(a)\<newline>  _5 = (_3, _1) \<newline>ui.null()'' \<and>
   map (hdr_ids ''3'') (filter is_hdr [Hdr 0 ''12'' False ''0'' 0, Txt ''ui.text(a)'',
                                        Hdr 2 ''5'' True ''1'' 1, Txt ''ui.null()''])
     = [Some (''12'', ''3'', ''0''), Some (''5'', ''3'', ''1'')]"
proof -
  let ?L = "[Hdr 0 ''12'' False ''0'' 0, Txt ''ui.text(a)'', Hdr 2 ''5'' True ''1'' 1, Txt ''ui.null()'']"
  have P: "digits ''3'' \<or> ''3'' = ''name''" by (simp add: digits_def is_digit_def)
  have t1: "\<not> contains_header ''3'' ''ui.text(a)''"
    by (rule no_header_check) code_simp
  have t2: "\<not> contains_header ''3'' ''ui.null()''"
    by (rule no_header_check) code_simp
  have wf: "\<forall>l \<in> set ?L. wf_line ''3'' l"
    using t1 t2 by (simp add: digits_def is_digit_def)
  from print_nodes_line_body[OF P wf refl]
  have c: "child_nodes (text_of ''3'' ?L) = Inr (snd (lines_split ''3'' ?L))" by blast
  have l: "snd (lines_split ''3'' ?L) = [(''_12 = (_3, 0)\<newline>'', ''ui.text(a)\<newline>''),
            (''  _5 = (_3, _1) \<newline>'', ''ui.null()'')]"
    by code_simp
  have t: "text_of ''3'' ?L = ''_12 = (_3, 0)\<newline>ui.text(a)\<newline>  _5 = (_3, _1) \<newline>ui.null()''"
    by code_simp
  show ?thesis using c l t by simp
qed

text \<open>
  Claim C1 as stated fails on a body that is one header line and nothing else: the text has
  no newline, and \<open>print_nodes\<close> returns at once with no record, where the claim counts one.
  And a body whose first line is text raises \<open>TypeError\<close>.
\<close>

theorem print_nodes_single_header_line:
  "text_of ''name'' [Hdr 0 ''1'' False ''0'' 0] = ''_1 = (_name, 0)'' \<and>
   length (filter is_hdr [Hdr 0 ''1'' False ''0'' 0]) = 1 \<and>
   child_nodes ''_1 = (_name, 0)'' = Inr [] \<and>
   (\<forall>pn extra_indent st. print_nodes pn ''_1 = (_name, 0)'' extra_indent st = Inr st) \<and>
   text_of ''0'' [Txt ''x = 1'', Hdr 0 ''1'' False ''0'' 0, Txt ''ui.null()'']
     = ''x = 1\<newline>_1 = (_0, 0)\<newline>ui.null()'' \<and>
   child_nodes ''x = 1\<newline>_1 = (_0, 0)\<newline>ui.null()'' = Inl TypeError"
  by (simp add: text_of_def header_text_def child_nodes_def split_nl1_def print_nodes_def
      header_groups_def)

section \<open>The lines \<open>print_screen\<close> removes\<close>

lemma splitlines_acc_plain:
  "\<forall>c \<in> set l. \<not> is_linebreak c \<Longrightarrow> splitlines_acc cur (l @ r) = splitlines_acc (cur @ l) r"
proof (induction l arbitrary: cur)
  case Nil
  then show ?case by simp
next
  case (Cons c l)
  then have nb: "\<not> is_linebreak c" by simp
  then have "c \<noteq> CHR 0x0D" by (auto simp: is_linebreak_def)
  with Cons nb show ?case by simp
qed

lemma newline_linebreak: "is_linebreak (CHR 0x0A)"
  by (simp add: is_linebreak_def)

lemma splitlines_acc_lines:
  "l \<in> set (splitlines_acc cur s) \<Longrightarrow> \<forall>c \<in> set cur. \<not> is_linebreak c \<Longrightarrow>
   \<forall>c \<in> set l. \<not> is_linebreak c"
proof (induction cur s rule: splitlines_acc.induct)
  case (1 cur)
  then show ?case by (auto split: if_splits)
next
  case (2 cur c cs)
  show ?case
  proof (cases "c = CHR 0x0D \<and> cs \<noteq> [] \<and> hd cs = CHR 0x0A")
    case True
    then show ?thesis using 2(1)[OF True] 2(4,5) by auto
  next
    case False
    show ?thesis
    proof (cases "is_linebreak c")
      case True
      then show ?thesis using 2(2)[OF False True] 2(4,5) False by auto
    next
      case nl: False
      then show ?thesis using 2(3)[OF False nl] 2(4,5) False by auto
    qed
  qed
qed

lemma splitlines_lines: "l \<in> set (splitlines s) \<Longrightarrow> \<forall>c \<in> set l. \<not> is_linebreak c"
  using splitlines_acc_lines[of l "[]" s] by (simp add: splitlines_def)

lemma splitlines_join:
  "\<forall>l \<in> set ls. \<forall>c \<in> set l. \<not> is_linebreak c \<Longrightarrow>
   set (splitlines (join [CHR 0x0A] ls)) \<subseteq> set ls"
proof (induction "[CHR 0x0A]" ls rule: join.induct)
  case 1
  then show ?case by (simp add: splitlines_def)
next
  case (2 x)
  then have "splitlines_acc [] (x @ []) = splitlines_acc ([] @ x) []"
    by (intro splitlines_acc_plain) simp
  then show ?case by (simp add: splitlines_def)
next
  case (3 x y ys)
  then have x: "\<forall>c \<in> set x. \<not> is_linebreak c" by simp
  have "splitlines_acc [] (x @ CHR 0x0A # join [CHR 0x0A] (y # ys))
          = splitlines_acc ([] @ x) (CHR 0x0A # join [CHR 0x0A] (y # ys))"
    using x by (rule splitlines_acc_plain)
  then have "splitlines (join [CHR 0x0A] (x # y # ys)) = x # splitlines (join [CHR 0x0A] (y # ys))"
    by (simp add: splitlines_def newline_linebreak)
  with 3 show ?case by auto
qed

lemma screen_body_lines:
  "\<forall>line \<in> set (splitlines (screen_body code)). strip line \<noteq> ''ui.close()''"
proof -
  let ?ls = "filter (\<lambda>line. strip line \<noteq> ''ui.close()'') (splitlines code)"
  have "\<forall>l \<in> set ?ls. \<forall>c \<in> set l. \<not> is_linebreak c"
    using splitlines_lines by auto
  from splitlines_join[OF this] show ?thesis
    unfolding screen_body_def by auto
qed

lemma sl_crlf: "splitlines_acc cur (CHR 0x0D # CHR 0x0A # r) = cur # splitlines_acc [] r"
  by simp

lemma sl_break:
  "is_linebreak c \<Longrightarrow> \<not> (c = CHR 0x0D \<and> r \<noteq> [] \<and> hd r = CHR 0x0A) \<Longrightarrow>
   splitlines_acc cur (c # r) = cur # splitlines_acc [] r"
  by auto

lemma sl_plain: "\<not> is_linebreak c \<Longrightarrow> splitlines_acc cur (c # r) = splitlines_acc (cur @ [c]) r"
  by (auto simp: is_linebreak_def)

lemma splitlines_acc_newline:
  "splitlines_acc cur (x @ CHR 0x0A # y) = splitlines_acc cur (x @ [CHR 0x0A]) @ splitlines_acc [] y"
proof (induction "length x" arbitrary: x cur rule: less_induct)
  case less
  show ?case
  proof (cases x)
    case Nil
    have "splitlines_acc cur (CHR 0x0A # y) = cur # splitlines_acc [] y"
      by (rule sl_break) (simp_all add: newline_linebreak)
    moreover have "splitlines_acc cur [CHR 0x0A] = cur # splitlines_acc [] []"
      by (rule sl_break) (simp_all add: newline_linebreak)
    ultimately show ?thesis using Nil by simp
  next
    case (Cons c cs)
    have l: "length cs < length x" using Cons by simp
    show ?thesis
    proof (cases "is_linebreak c")
      case nb: False
      have "splitlines_acc cur (c # (cs @ CHR 0x0A # y)) = splitlines_acc (cur @ [c]) (cs @ CHR 0x0A # y)"
        using nb by (rule sl_plain)
      moreover have "splitlines_acc cur (c # (cs @ [CHR 0x0A])) = splitlines_acc (cur @ [c]) (cs @ [CHR 0x0A])"
        using nb by (rule sl_plain)
      ultimately show ?thesis using less[OF l, of "cur @ [c]"] Cons by simp
    next
      case True
      show ?thesis
      proof (cases "c = CHR 0x0D \<and> (\<exists>ds. cs = CHR 0x0A # ds)")
        case crlf: True
        then obtain ds where ds: "cs = CHR 0x0A # ds" and c: "c = CHR 0x0D" by blast
        have l2: "length ds < length x" using Cons ds by simp
        have "splitlines_acc cur (c # cs @ CHR 0x0A # y) = cur # splitlines_acc [] (ds @ CHR 0x0A # y)"
          unfolding c ds using sl_crlf[of cur "ds @ CHR 0x0A # y"] by simp
        moreover have "splitlines_acc cur (c # cs @ [CHR 0x0A]) = cur # splitlines_acc [] (ds @ [CHR 0x0A])"
          unfolding c ds using sl_crlf[of cur "ds @ [CHR 0x0A]"] by simp
        ultimately show ?thesis using less[OF l2, of "[]"] Cons by simp
      next
        case False
        show ?thesis
        proof (cases "c = CHR 0x0D \<and> cs = []")
          case cr: True
          have "splitlines_acc cur (c # cs @ CHR 0x0A # y) = cur # splitlines_acc [] y"
            using cr sl_crlf[of cur y] by simp
          moreover have "splitlines_acc cur (c # cs @ [CHR 0x0A]) = [cur]"
            using cr sl_crlf[of cur "[]"] by simp
          ultimately show ?thesis using Cons by simp
        next
          case ncr: False
          have n1: "\<not> (c = CHR 0x0D \<and> (cs @ CHR 0x0A # y) \<noteq> [] \<and> hd (cs @ CHR 0x0A # y) = CHR 0x0A)"
            using False ncr by (cases cs) auto
          have n2: "\<not> (c = CHR 0x0D \<and> (cs @ [CHR 0x0A]) \<noteq> [] \<and> hd (cs @ [CHR 0x0A]) = CHR 0x0A)"
            using False ncr by (cases cs) auto
          have "splitlines_acc cur (c # (cs @ CHR 0x0A # y)) = cur # splitlines_acc [] (cs @ CHR 0x0A # y)"
            using True n1 by (rule sl_break)
          moreover have "splitlines_acc cur (c # (cs @ [CHR 0x0A])) = cur # splitlines_acc [] (cs @ [CHR 0x0A])"
            using True n2 by (rule sl_break)
          ultimately show ?thesis using less[OF l, of "[]"] Cons by simp
        qed
      qed
    qed
  qed
qed

lemma splitlines_after_newline:
  assumes "x = [] \<or> last x = CHR 0x0A"
  shows "splitlines (x @ y) = splitlines x @ splitlines y"
proof (cases "x = []")
  case True
  then show ?thesis by (simp add: splitlines_def)
next
  case False
  then obtain x' where x: "x = x' @ [CHR 0x0A]"
    using assms by (metis append_butlast_last_id)
  show ?thesis
    unfolding x splitlines_def using splitlines_acc_newline[of "[]" x' y] by simp
qed


lemma opt_newline_suffix: "\<exists>d. w = d @ opt_newline w"
proof (cases w)
  case Nil
  then show ?thesis by (simp add: opt_newline_def)
next
  case (Cons x xs)
  show ?thesis
  proof (cases "x = CHR 0x0A")
    case True
    then have "w = [x] @ opt_newline w" using Cons by (simp add: opt_newline_def)
    then show ?thesis by blast
  next
    case False
    then have "w = [] @ opt_newline w" using Cons by (simp add: opt_newline_def)
    then show ?thesis by blast
  qed
qed

lemma node_match_split:
  assumes "node_match P s = Some (m, r)"
  shows "s = m @ r"
proof -
  from assms obtain s5 where c: "node_core P s = Some s5"
    and r: "r = opt_newline (dropWhile (\<lambda>c. c = CHR '' '') s5)"
    and m: "m = take (length s - length r) s"
    unfolding node_match_def node_rest_def by auto
  from node_core_shape[OF c] obtain a where a: "s = a @ s5" by auto
  have b: "s5 = takeWhile (\<lambda>c. c = CHR '' '') s5 @ dropWhile (\<lambda>c. c = CHR '' '') s5"
    by simp
  obtain d where d: "dropWhile (\<lambda>c. c = CHR '' '') s5 = d @ r"
    unfolding r using opt_newline_suffix by blast
  have "s = (a @ takeWhile (\<lambda>c. c = CHR '' '') s5 @ d) @ r"
    using a b d by (metis append.assoc)
  then show ?thesis unfolding m by (metis append_eq_conv_conj length_append add_diff_cancel_right')
qed

lemma re_split_concat:
  "fst (re_split P s) @ concat (map (\<lambda>(h, b). h @ b) (snd (re_split P s))) = s"
proof (induction P s rule: re_split.induct)
  case (1 P)
  then show ?case by simp
next
  case (2 P c cs)
  show ?case
  proof (cases "node_match P (c # cs)")
    case None
    with 2(1)[OF None] show ?thesis by (cases "re_split P cs") simp
  next
    case (Some a)
    obtain m rest where a: "a = (m, rest)" by (cases a)
    have s: "c # cs = m @ rest" using node_match_split Some a by blast
    have ih: "fst (re_split P rest) @ concat (map (\<lambda>(h, b). h @ b) (snd (re_split P rest))) = rest"
      using 2(2)[OF Some a[symmetric]] .
    have "re_split P (c # cs) = ([], (m, fst (re_split P rest)) # snd (re_split P rest))"
      using Some a by (cases "re_split P rest") simp
    then have "fst (re_split P (c # cs)) @ concat (map (\<lambda>(h, b). h @ b) (snd (re_split P (c # cs))))
                 = m @ fst (re_split P rest) @ concat (map (\<lambda>(h, b). h @ b) (snd (re_split P rest)))"
      by simp
    also have "\<dots> = m @ rest" using ih by simp
    finally show ?thesis using s by simp
  qed
qed

lemma child_nodes_concat:
  assumes "child_nodes code = Inr nodes" "nodes \<noteq> []"
  shows "\<exists>g. code = g @ concat (map (\<lambda>(h, b). h @ b) nodes)"
proof -
  from assms obtain P where "nodes = snd (re_split P code)"
    unfolding child_nodes_def by (auto split: prod.splits option.splits)
  then show ?thesis using re_split_concat[of P code] by metis
qed

lemma child_body_lines:
  assumes "child_nodes code = Inr (ns1 @ (h, b) # ns2)"
    and "h \<noteq> [] \<and> last h = CHR 0x0A"
    and "b = [] \<or> last b = CHR 0x0A \<or> ns2 = []"
  shows "set (splitlines b) \<subseteq> set (splitlines code)"
proof -
  let ?f = "\<lambda>(h, b). h @ b"
  from child_nodes_concat[OF assms(1)] obtain g where
    "code = g @ concat (map ?f (ns1 @ (h, b) # ns2))" by auto
  then have code: "code = ((g @ concat (map ?f ns1)) @ h) @ b @ concat (map ?f ns2)"
    by simp
  let ?pre = "(g @ concat (map ?f ns1)) @ h" and ?post = "concat (map ?f ns2)"
  have pre: "?pre = [] \<or> last ?pre = CHR 0x0A" using assms(2) by simp
  have 1: "splitlines code = splitlines ?pre @ splitlines (b @ ?post)"
    unfolding code using splitlines_after_newline[OF pre] .
  have "set (splitlines b) \<subseteq> set (splitlines (b @ ?post))"
  proof (cases "ns2 = []")
    case True
    then show ?thesis by simp
  next
    case False
    then have "b = [] \<or> last b = CHR 0x0A" using assms(3) by simp
    from splitlines_after_newline[OF this, of ?post] show ?thesis by simp
  qed
  with 1 show ?thesis by auto
qed

text \<open>
  Claim C10, as the code has it. The text \<open>print_screen\<close> builds for the Block Splitter
  holds no line whose stripped content is \<open>ui.close()\<close>, wherever such lines stood in the
  rendered body; with both options on, every normal return of \<open>print_screen\<close> has passed
  through \<open>print_nodes\<close> on that text. A child cut at line ends (its header ends with
  the newline, and its body is empty, ends with a newline or is the last one) has a body
  made of whole lines of that text, so none of its lines is \<open>ui.close()\<close>.
\<close>

theorem screen_body_no_close:
  "(\<forall>line \<in> set (splitlines (screen_body code)). strip line \<noteq> ''ui.close()'') \<and>
   (decompile_python E \<and> decompile_screencode E \<and> print_screen pn E ast st = Inr st' \<longrightarrow>
      (\<exists>st5 st6. print_nodes pn (screen_body (ast_code ast)) 0 st5 = Inr st6 \<and>
                 st' = shift (- 1) st6)) \<and>
   (child_nodes (screen_body code) = Inr (ns1 @ (h, b) # ns2) \<and>
    h \<noteq> [] \<and> last h = CHR 0x0A \<and> (b = [] \<or> last b = CHR 0x0A \<or> ns2 = []) \<longrightarrow>
      (\<forall>line \<in> set (splitlines b). strip line \<noteq> ''ui.close()''))"
proof (intro conjI impI)
  show "\<forall>line \<in> set (splitlines (screen_body code)). strip line \<noteq> ''ui.close()''"
    by (rule screen_body_lines)
next
  assume a: "decompile_python E \<and> decompile_screencode E \<and> print_screen pn E ast st = Inr st'"
  then show "\<exists>st5 st6. print_nodes pn (screen_body (ast_code ast)) 0 st5 = Inr st6 \<and>
                 st' = shift (- 1) st6"
  proof -
    from a obtain st5 st6 where
      "print_nodes pn (screen_body (ast_code ast)) 0 st5 = Inr st6" "st' = shift (- 1) st6"
      unfolding print_screen_def by (auto simp: bindE_Inr_iff)
    then show ?thesis by blast
  qed
next
  assume a: "child_nodes (screen_body code) = Inr (ns1 @ (h, b) # ns2) \<and>
    h \<noteq> [] \<and> last h = CHR 0x0A \<and> (b = [] \<or> last b = CHR 0x0A \<or> ns2 = [])"
  then have "set (splitlines b) \<subseteq> set (splitlines (screen_body code))"
    using child_body_lines[of "screen_body code" ns1 h b ns2] by blast
  then show "\<forall>line \<in> set (splitlines b). strip line \<noteq> ''ui.close()''"
    using screen_body_lines[of code] by blast
qed


theorem screen_body_no_close_witness:
  "screen_body ''_1 = (_name, 0)\<newline>ui.vbox()\<newline>_2 = (_1, 0)\<newline>ui.null()\<newline>ui.close()\<newline>_3 = (_name, 1)\<newline>ui.null()\<newline>  ui.close() ''
     = ''_1 = (_name, 0)\<newline>ui.vbox()\<newline>_2 = (_1, 0)\<newline>ui.null()\<newline>_3 = (_name, 1)\<newline>ui.null()'' \<and>
   child_nodes (screen_body ''_1 = (_name, 0)\<newline>ui.vbox()\<newline>_2 = (_1, 0)\<newline>ui.null()\<newline>ui.close()\<newline>_3 = (_name, 1)\<newline>ui.null()\<newline>  ui.close() '')
     = Inr ([] @ (''_1 = (_name, 0)\<newline>'', ''ui.vbox()\<newline>_2 = (_1, 0)\<newline>ui.null()\<newline>'')
              # [(''_3 = (_name, 1)\<newline>'', ''ui.null()'')]) \<and>
   list_all (\<lambda>line. strip line \<noteq> ''ui.close()'')
     (splitlines ''ui.vbox()\<newline>_2 = (_1, 0)\<newline>ui.null()\<newline>'') \<and>
   print_screen (\<lambda>h c s. Inr s)
     \<lparr>force_multiline_kwargs = True, comparable = False, decompile_python = True,
      decompile_screencode = True, simple_expression_guard = (\<lambda>s. s),
      word_join = (\<lambda>ws. [])\<rparr>
     \<lparr>ast_name = ''main'', ast_parameters = None, ast_zorder = None, ast_modal = None,
      ast_variant = None, ast_tag = None,
      ast_code = ''_1 = (_name, 0)\<newline>ui.vbox()\<newline>_2 = (_1, 0)\<newline>ui.null()\<newline>ui.close()\<newline>_3 = (_name, 1)\<newline>ui.null()\<newline>  ui.close() ''\<rparr>
     \<lparr>indent_level = 0, out = []\<rparr>
   = Inr \<lparr>indent_level = 0, out = [EvIndent 0, EvWrite ''screen main'', EvWrite '':'']\<rparr> \<and>
   (\<exists>st5 st6.
      print_nodes (\<lambda>h c s. Inr s)
        (screen_body ''_1 = (_name, 0)\<newline>ui.vbox()\<newline>_2 = (_1, 0)\<newline>ui.null()\<newline>ui.close()\<newline>_3 = (_name, 1)\<newline>ui.null()\<newline>  ui.close() '')
        0 st5 = Inr st6 \<and>
      \<lparr>indent_level = 0, out = [EvIndent 0, EvWrite ''screen main'', EvWrite '':'']\<rparr> = shift (- 1) st6)"
proof -
  let ?C = "''_1 = (_name, 0)\<newline>ui.vbox()\<newline>_2 = (_1, 0)\<newline>ui.null()\<newline>ui.close()\<newline>_3 = (_name, 1)\<newline>ui.null()\<newline>  ui.close() ''"
  let ?E = "\<lparr>force_multiline_kwargs = True, comparable = False, decompile_python = True,
      decompile_screencode = True, simple_expression_guard = (\<lambda>s. s),
      word_join = (\<lambda>ws. [])\<rparr>"
  let ?ast = "\<lparr>ast_name = ''main'', ast_parameters = None, ast_zorder = None, ast_modal = None,
      ast_variant = None, ast_tag = None, ast_code = ?C\<rparr>"
  let ?st = "\<lparr>indent_level = 0, out = []\<rparr>"
  let ?st' = "\<lparr>indent_level = 0, out = [EvIndent 0, EvWrite ''screen main'', EvWrite '':'']\<rparr>"
  let ?h = "''_1 = (_name, 0)\<newline>''"
  let ?b = "''ui.vbox()\<newline>_2 = (_1, 0)\<newline>ui.null()\<newline>''"
  let ?n2 = "[(''_3 = (_name, 1)\<newline>'', ''ui.null()'')]"
  have sb: "screen_body ?C = ''_1 = (_name, 0)\<newline>ui.vbox()\<newline>_2 = (_1, 0)\<newline>ui.null()\<newline>_3 = (_name, 1)\<newline>ui.null()''"
    by code_simp
  have cn: "child_nodes (screen_body ?C) = Inr ([] @ (?h, ?b) # ?n2)"
    by code_simp
  have pn: "print_nodes (\<lambda>h c s. Inr s) (screen_body ?C) 0
              \<lparr>indent_level = 1, out = [EvIndent 0, EvWrite ''screen main'', EvWrite '':'']\<rparr>
            = Inr \<lparr>indent_level = 1, out = [EvIndent 0, EvWrite ''screen main'', EvWrite '':'']\<rparr>"
    unfolding print_nodes_def sb cn[unfolded sb] by (simp add: shift_def)
  have pre: "screen_preamble ?E ?ast ?st
       = Inr \<lparr>indent_level = 1, out = [EvIndent 0, EvWrite ''screen main'', EvWrite '':'']\<rparr>"
    by (simp add: screen_preamble_def given_def indent_def write_text_def shift_def)
  have ps: "print_screen (\<lambda>h c s. Inr s) ?E ?ast ?st = Inr ?st'"
    unfolding print_screen_def pre using pn by (simp add: shift_def)
  have hb: "?h \<noteq> [] \<and> last ?h = CHR 0x0A \<and> (?b = [] \<or> last ?b = CHR 0x0A \<or> ?n2 = [])"
    by simp
  have fl: "decompile_python ?E \<and> decompile_screencode ?E" by simp
  note t = screen_body_no_close[of ?C ?E "\<lambda>h c s. Inr s" ?ast ?st ?st' "[]" ?h ?b ?n2]
  from t cn hb have "\<forall>line \<in> set (splitlines ?b). strip line \<noteq> ''ui.close()''" by blast
  then have la: "list_all (\<lambda>line. strip line \<noteq> ''ui.close()'') (splitlines ?b)"
    by (simp only: list_all_iff)
  from t fl ps have ex: "\<exists>st5 st6. print_nodes (\<lambda>h c s. Inr s) (screen_body (ast_code ?ast)) 0 st5 = Inr st6 \<and>
                 ?st' = shift (- 1) st6" by blast
  then have ex': "\<exists>st5 st6. print_nodes (\<lambda>h c s. Inr s) (screen_body ?C) 0 st5 = Inr st6 \<and>
                 ?st' = shift (- 1) st6" by simp
  from sb cn la ps ex' show ?thesis by (intro conjI)
qed

text \<open>
  Claim C10 as stated fails where a header does not stand on a line of its own. The
  filter works on whole lines, while the block splitter cuts the text at every match of the
  header pattern, also inside a line. The second line of the body below is the rendering of
  an assignment of a string literal that holds two headers around \<open>ui.close()\<close>: the line
  is kept, since stripped it is not \<open>ui.close()\<close>, and the body of the child that the
  first of the two headers opens is the line \<open>ui.close()\<close>.
\<close>

theorem child_body_inside_string_literal:
  "screen_body (''_1 = (_name, 0)\<newline>x = u'' @ [CHR 0x27] @ ''_2 = (_name, 1)ui.close()_3 = (_name, 2)'' @ [CHR 0x27])
     = ''_1 = (_name, 0)\<newline>x = u'' @ [CHR 0x27] @ ''_2 = (_name, 1)ui.close()_3 = (_name, 2)'' @ [CHR 0x27] \<and>
   child_nodes (screen_body (''_1 = (_name, 0)\<newline>x = u'' @ [CHR 0x27] @ ''_2 = (_name, 1)ui.close()_3 = (_name, 2)'' @ [CHR 0x27]))
     = Inr [(''_1 = (_name, 0)\<newline>'', ''x = u'' @ [CHR 0x27]),
            (''_2 = (_name, 1)'', ''ui.close()''),
            (''_3 = (_name, 2)'', [CHR 0x27])] \<and>
   splitlines ''ui.close()'' = [''ui.close()''] \<and>
   strip ''ui.close()'' = ''ui.close()''"
  by code_simp

end
